theory Spec2Isabelle
  imports Main "HOL-Library.Word" "HOL-Library.AList" "HOL-Library.Sublist"
begin

section \<open>JavaScript strings\<close>

text \<open>
  A JavaScript string is a sequence of UTF-16 code units; a code unit is modelled by its
  numeric value.  ASCII literals of the source are written \<open>str ''...''\<close>.
\<close>

type_synonym jstring = "nat list"

type_synonym byte = "8 word"

definition str :: "string \<Rightarrow> jstring" where
  "str s = map of_char s"

text \<open>
  ECMAScript \<open>WhiteSpace\<close> and \<open>LineTerminator\<close> code units: the set that \<open>\s\<close> matches and
  that \<open>String.prototype.trim\<close> strips.  \<open>.\<close> matches everything but a line terminator.
\<close>

definition is_line_terminator :: "nat \<Rightarrow> bool" where
  "is_line_terminator c \<longleftrightarrow> c = 0x0A \<or> c = 0x0D \<or> c = 0x2028 \<or> c = 0x2029"

definition is_ws :: "nat \<Rightarrow> bool" where
  "is_ws c \<longleftrightarrow>
     c = 0x09 \<or> c = 0x0B \<or> c = 0x0C \<or> c = 0x20 \<or> c = 0xA0 \<or> c = 0x1680 \<or>
     (0x2000 \<le> c \<and> c \<le> 0x200A) \<or> c = 0x202F \<or> c = 0x205F \<or> c = 0x3000 \<or>
     c = 0xFEFF \<or> is_line_terminator c"

definition trim :: "jstring \<Rightarrow> jstring" where
  "trim s = rev (dropWhile is_ws (rev (dropWhile is_ws s)))"

definition startsWith :: "jstring \<Rightarrow> jstring \<Rightarrow> bool" where
  "startsWith s p \<longleftrightarrow> take (length p) s = p"

text \<open>\<open>s.split(sep)\<close> for a separator of one code unit.\<close>

fun js_split :: "nat \<Rightarrow> jstring \<Rightarrow> jstring list" where
  "js_split sep [] = [[]]"
| "js_split sep (c # cs) =
     (if c = sep then [] # js_split sep cs
      else (case js_split sep cs of l # ls \<Rightarrow> (c # l) # ls | [] \<Rightarrow> [[c]]))"

definition ascii_lower :: "nat \<Rightarrow> nat" where
  "ascii_lower c = (if 0x41 \<le> c \<and> c \<le> 0x5A then c + 0x20 else c)"

definition ascii_upper :: "nat \<Rightarrow> nat" where
  "ascii_upper c = (if 0x61 \<le> c \<and> c \<le> 0x7A then c - 0x20 else c)"

text \<open>
  \<open>String.prototype.toLowerCase\<close> follows the Unicode case tables of the platform.  On a
  string of ASCII code units it lowers \<open>A\<close>..\<open>Z\<close>; for any other string the platform's
  conversion is the parameter \<open>L\<close>.  \<open>toUpperCase\<close> is only ever applied to one letter
  \<open>a\<close>..\<open>z\<close>.
\<close>

definition toLowerCase :: "(jstring \<Rightarrow> jstring) \<Rightarrow> jstring \<Rightarrow> jstring" where
  "toLowerCase L s = (if \<forall>c \<in> set s. c < 0x80 then map ascii_lower s else L s)"

definition toUpperCase_ascii :: "jstring \<Rightarrow> jstring" where
  "toUpperCase_ascii s = map ascii_upper s"

section \<open>Regular expressions\<close>

text \<open>
  The fragment of ECMAScript patterns that the source uses.  A class is a list of
  ranges and escapes, possibly negated; \<open>x+\<close>, \<open>x?\<close> and \<open>x{2,}\<close> are written with
  \<open>Star\<close>, \<open>Alt\<close> and \<open>Seq\<close> below (the atoms they are applied to consume exactly one
  code unit and hold no group).
\<close>

datatype catom = CRange nat nat | CSpace | CNonSpace

datatype regex =
    Lit nat
  | Dot
  | Cls bool "catom list"
  | BOL
  | EOL
  | Emp
  | Seq regex regex
  | Alt regex regex
  | Star regex bool
  | Grp nat regex

text \<open>
  A match state: the index reached, the input from there on, and the captures.
\<close>

datatype mstate =
  MState (endIndex: nat) (rest: jstring) (captures: "(nat \<times> jstring) list")

text \<open>
  \<open>Canonicalize\<close> of the specification for a pattern without the \<open>u\<close> flag: with
  \<open>ignoreCase\<close> a code unit is compared through its upper case.  A code unit from 128 on
  never canonicalizes to one below 128, and every code unit written in the source's
  patterns is below 128, so only the ASCII letters need their upper case here.
\<close>

definition canon :: "bool \<Rightarrow> nat \<Rightarrow> nat" where
  "canon ic c = (if ic then ascii_upper c else c)"

fun catom_mem :: "bool \<Rightarrow> catom \<Rightarrow> nat \<Rightarrow> bool" where
  "catom_mem ic (CRange lo hi) c \<longleftrightarrow> (\<exists>a \<in> set [lo..<Suc hi]. canon ic a = canon ic c)"
| "catom_mem ic CSpace c \<longleftrightarrow> is_ws c"
| "catom_mem ic CNonSpace c \<longleftrightarrow> \<not> is_ws c"

definition advance :: "mstate \<Rightarrow> jstring \<Rightarrow> mstate" where
  "advance st cs = MState (Suc (endIndex st)) cs (captures st)"

definition one_char :: "(nat \<Rightarrow> bool) \<Rightarrow> mstate \<Rightarrow> mstate list" where
  "one_char p st = (case rest st of [] \<Rightarrow> [] | c # cs \<Rightarrow> if p c then [advance st cs] else [])"

text \<open>
  The backtracking matcher, as the list of the states in which a pattern can end, in the
  order in which backtracking tries them: the head is the match that is returned.
  \<open>Star r greedy\<close> is \<open>RepeatMatcher\<close> with \<open>min = 0\<close> and \<open>max = \<infinity>\<close>: an iteration that
  consumes nothing is rejected.
\<close>

function ms :: "bool \<Rightarrow> regex \<Rightarrow> mstate \<Rightarrow> mstate list" where
  "ms ic (Lit c) st = one_char (\<lambda>d. canon ic d = canon ic c) st"
| "ms ic Dot st = one_char (\<lambda>d. \<not> is_line_terminator d) st"
| "ms ic (Cls neg atoms) st = one_char (\<lambda>d. (\<exists>a \<in> set atoms. catom_mem ic a d) \<noteq> neg) st"
| "ms ic BOL st = (if endIndex st = 0 then [st] else [])"
| "ms ic EOL st = (if rest st = [] then [st] else [])"
| "ms ic Emp st = [st]"
| "ms ic (Seq a b) st = concat (map (ms ic b) (ms ic a st))"
| "ms ic (Alt a b) st = ms ic a st @ ms ic b st"
| "ms ic (Star r greedy) st =
     (let more = concat (map (\<lambda>t. if length (rest t) < length (rest st)
                                    then ms ic (Star r greedy) t else [])
                             (ms ic r st))
      in if greedy then more @ [st] else st # more)"
| "ms ic (Grp n r) st =
     map (\<lambda>t. MState (endIndex t) (rest t)
                      (AList.update n (take (endIndex t - endIndex st) (rest st)) (captures t)))
         (ms ic r st)"
  by pat_completeness auto
termination
  by (relation "measures [\<lambda>(ic, r, st). size r, \<lambda>(ic, r, st). length (rest st)]") auto

declare ms.simps(9) [simp del]

text \<open>
  \<open>RegExpBuiltinExec\<close> from index \<open>i\<close>, where \<open>s\<close> is the input from \<open>i\<close> on: the first
  index at which the pattern matches, with the state the match ends in.
\<close>

fun exec_from :: "bool \<Rightarrow> regex \<Rightarrow> nat \<Rightarrow> jstring \<Rightarrow> (nat \<times> mstate) option" where
  "exec_from ic r i [] =
     (case ms ic r (MState i [] []) of
        t # _ \<Rightarrow> Some (i, t)
      | [] \<Rightarrow> None)"
| "exec_from ic r i (c # s) =
     (case ms ic r (MState i (c # s) []) of
        t # _ \<Rightarrow> Some (i, t)
      | [] \<Rightarrow> exec_from ic r (Suc i) s)"

text \<open>
  \<open>s.match(r)\<close> for a pattern without the \<open>g\<close> flag: the matched substring and the
  captures, or nothing (\<open>null\<close>).
\<close>

definition str_match :: "bool \<Rightarrow> regex \<Rightarrow> jstring \<Rightarrow> (jstring \<times> (nat \<times> jstring) list) option" where
  "str_match ic r s =
     (case exec_from ic r 0 s of
        None \<Rightarrow> None
      | Some (i, t) \<Rightarrow> Some (take (endIndex t - i) (drop i s), captures t))"


text \<open>
  \<open>s.match(r)\<close> for a pattern with the \<open>g\<close> flag: all matched substrings from left to
  right (the empty list stands for \<open>null\<close>).  After an empty match the search goes on one
  code unit further.  \<open>s\<close> is the input from index \<open>i\<close> on.
\<close>

function match_all :: "bool \<Rightarrow> regex \<Rightarrow> nat \<Rightarrow> jstring \<Rightarrow> jstring list" where
  "match_all ic r i s =
     (case exec_from ic r i s of
        None \<Rightarrow> []
      | Some (k, t) \<Rightarrow>
          take (endIndex t - k) (drop (k - i) s) #
          (if endIndex t = k
           then (case rest t of [] \<Rightarrow> [] | _ # s' \<Rightarrow> match_all ic r (Suc (endIndex t)) s')
           else match_all ic r (endIndex t) (rest t)))"
  by pat_completeness auto

text \<open>
  \<open>s.replace(r, f)\<close> for a pattern with the \<open>g\<close> flag and a replacer function, which is
  given the captures of each match.
\<close>

function replace_all ::
  "bool \<Rightarrow> regex \<Rightarrow> ((nat \<times> jstring) list \<Rightarrow> jstring) \<Rightarrow> nat \<Rightarrow> jstring \<Rightarrow> jstring" where
  "replace_all ic r f i s =
     (case exec_from ic r i s of
        None \<Rightarrow> s
      | Some (k, t) \<Rightarrow>
          take (k - i) s @ f (captures t) @
          (if endIndex t = k
           then (case rest t of [] \<Rightarrow> [] | c # s' \<Rightarrow> c # replace_all ic r f (Suc (endIndex t)) s')
           else replace_all ic r f (endIndex t) (rest t)))"
  by pat_completeness auto

subsection \<open>The patterns of the source\<close>

definition ch :: "char \<Rightarrow> nat" where
  "ch c = of_char c"

definition re_lit :: "string \<Rightarrow> regex" where
  "re_lit s = foldr (\<lambda>c r. Seq (Lit (ch c)) r) s Emp"

definition re_seqs :: "regex list \<Rightarrow> regex" where
  "re_seqs rs = foldr Seq rs Emp"

definition re_opt :: "regex \<Rightarrow> regex" where
  "re_opt r = Alt r Emp"

definition re_plus :: "regex \<Rightarrow> regex" where
  "re_plus r = Seq r (Star r True)"

definition re_at_least2 :: "regex \<Rightarrow> regex" where
  "re_at_least2 r = Seq r (Seq r (Star r True))"

definition csingle :: "char \<Rightarrow> catom" where
  "csingle c = CRange (ch c) (ch c)"

definition crange :: "char \<Rightarrow> char \<Rightarrow> catom" where
  "crange a b = CRange (ch a) (ch b)"

text \<open>\<open>[\s\S]\<close>\<close>

definition any_char :: regex where
  "any_char = Cls False [CSpace, CNonSpace]"

text \<open>\<open>/(?:^|\n)# ?security\.txt(?:\n|$)([\s\S]*?)(?:\n\n|\n#|$)/i\<close>\<close>

definition re_standard :: regex where
  "re_standard = re_seqs
     [Alt BOL (Lit 0x0A), Lit (ch CHR ''#''), re_opt (Lit 0x20), re_lit ''security.txt'',
      Alt (Lit 0x0A) EOL, Grp 1 (Star any_char False),
      Alt (Seq (Lit 0x0A) (Lit 0x0A)) (Alt (Seq (Lit 0x0A) (Lit (ch CHR ''#''))) EOL)]"

text \<open>\<open>/-----BEGIN SECURITY\.TXT-----([\s\S]*?)-----END SECURITY\.TXT-----/i\<close>\<close>

definition re_delimited :: regex where
  "re_delimited = re_seqs
     [re_lit ''-----BEGIN SECURITY.TXT-----'', Grp 1 (Star any_char False),
      re_lit ''-----END SECURITY.TXT-----'']"

text \<open>\<open>/Contact: ([^\n]+)/i\<close> and \<open>/Security-Contact: ([^\n]+)/i\<close>\<close>

definition re_contact :: regex where
  "re_contact = re_seqs [re_lit ''Contact: '', Grp 1 (re_plus (Cls True [CRange 0x0A 0x0A]))]"

definition re_security_contact :: regex where
  "re_security_contact =
     re_seqs [re_lit ''Security-Contact: '', Grp 1 (re_plus (Cls True [CRange 0x0A 0x0A]))]"

text \<open>\<open>[a-zA-Z0-9._%+-]+@[a-zA-Z0-9.-]+\.[a-zA-Z]{2,}\<close>\<close>

definition re_email :: regex where
  "re_email = re_seqs
     [re_plus (Cls False [crange CHR ''a'' CHR ''z'', crange CHR ''A'' CHR ''Z'',
                       crange CHR ''0'' CHR ''9'', csingle CHR ''.'', csingle CHR ''_'',
                       csingle CHR ''%'', csingle CHR ''+'', csingle CHR ''-'']),
      Lit (ch CHR ''@''),
      re_plus (Cls False [crange CHR ''a'' CHR ''z'', crange CHR ''A'' CHR ''Z'',
                       crange CHR ''0'' CHR ''9'', csingle CHR ''.'', csingle CHR ''-'']),
      Lit (ch CHR ''.''),
      re_at_least2 (Cls False [crange CHR ''a'' CHR ''z'', crange CHR ''A'' CHR ''Z''])]"

text \<open>\<open>/mailto:([a-zA-Z0-9._%+-]+@[a-zA-Z0-9.-]+\.[a-zA-Z]{2,})/i\<close>\<close>

definition re_mailto_field :: regex where
  "re_mailto_field = re_seqs [re_lit ''mailto:'', Grp 1 re_email]"

text \<open>\<open>/^([^:]+):\s*(.*)$/\<close>\<close>

definition re_field_line :: regex where
  "re_field_line = re_seqs
     [BOL, Grp 1 (re_plus (Cls True [csingle CHR '':''])), Lit (ch CHR '':''),
      Star (Cls False [CSpace]) True, Grp 2 (Star Dot True), EOL]"

text \<open>\<open>/-([a-z])/g\<close>\<close>

definition re_kebab :: regex where
  "re_kebab = re_seqs [Lit (ch CHR ''-''), Grp 1 (Cls False [crange CHR ''a'' CHR ''z''])]"

text \<open>\<open>/security@[a-zA-Z0-9.-]+\.[a-zA-Z]{2,}/g\<close>\<close>

definition re_security_email :: regex where
  "re_security_email = re_seqs
     [re_lit ''security@'',
      re_plus (Cls False [crange CHR ''a'' CHR ''z'', crange CHR ''A'' CHR ''Z'',
                       crange CHR ''0'' CHR ''9'', csingle CHR ''.'', csingle CHR ''-'']),
      Lit (ch CHR ''.''),
      re_at_least2 (Cls False [crange CHR ''a'' CHR ''z'', crange CHR ''A'' CHR ''Z''])]"

text \<open>\<open>/mailto:[a-zA-Z0-9._%+-]+@[a-zA-Z0-9.-]+\.[a-zA-Z]{2,}/g\<close>\<close>

definition re_mailto :: regex where
  "re_mailto = re_seqs [re_lit ''mailto:'', re_email]"

text \<open>
  \<open>/https?:\/\/[a-zA-Z0-9.-]+\.[a-zA-Z]{2,}\/security/g\<close>, and the same with
  \<open>\/responsible-disclosure\<close> and \<open>\/vulnerability\<close>
\<close>

definition re_url :: "string \<Rightarrow> regex" where
  "re_url path = re_seqs
     [re_lit ''http'', re_opt (Lit (ch CHR ''s'')), re_lit ''://'',
      re_plus (Cls False [crange CHR ''a'' CHR ''z'', crange CHR ''A'' CHR ''Z'',
                       crange CHR ''0'' CHR ''9'', csingle CHR ''.'', csingle CHR ''-'']),
      Lit (ch CHR ''.''),
      re_at_least2 (Cls False [crange CHR ''a'' CHR ''z'', crange CHR ''A'' CHR ''Z'']),
      re_lit path]"

text \<open>
  \<open>/-----BEGIN PGP PUBLIC KEY BLOCK-----([\s\S]*?)-----END PGP PUBLIC KEY BLOCK-----/g\<close>
\<close>

definition re_pgp :: regex where
  "re_pgp = re_seqs
     [re_lit ''-----BEGIN PGP PUBLIC KEY BLOCK-----'', Grp 1 (Star any_char False),
      re_lit ''-----END PGP PUBLIC KEY BLOCK-----'']"


section \<open>Decoding the program data\<close>

text \<open>
  \<open>new TextDecoder().decode(bytes)\<close>: the UTF-8 decoder of the Encoding standard in its
  default (replacement) mode.  \<open>utf8_decode cp seen needed lo hi bs\<close> is the decoder with
  its state: the code point being assembled, the bytes seen and needed, and the bounds of
  the next byte.  An ill-formed sequence yields U+FFFD and the offending byte is read
  again.  A leading U+FEFF is dropped, and a code point above U+FFFF becomes a surrogate
  pair.
\<close>

function utf8_decode :: "nat \<Rightarrow> nat \<Rightarrow> nat \<Rightarrow> nat \<Rightarrow> nat \<Rightarrow> byte list \<Rightarrow> nat list" where
  "utf8_decode cp seen needed lo hi [] = (if needed \<noteq> 0 then [0xFFFD] else [])"
| "utf8_decode cp seen needed lo hi (b # bs) =
     (let v = unat b in
      if needed = 0 then
        (if v \<le> 0x7F then v # utf8_decode 0 0 0 0x80 0xBF bs
         else if 0xC2 \<le> v \<and> v \<le> 0xDF then utf8_decode (v mod 0x20) 0 1 0x80 0xBF bs
         else if 0xE0 \<le> v \<and> v \<le> 0xEF then
           utf8_decode (v mod 0x10) 0 2 (if v = 0xE0 then 0xA0 else 0x80)
             (if v = 0xED then 0x9F else 0xBF) bs
         else if 0xF0 \<le> v \<and> v \<le> 0xF4 then
           utf8_decode (v mod 0x08) 0 3 (if v = 0xF0 then 0x90 else 0x80)
             (if v = 0xF4 then 0x8F else 0xBF) bs
         else 0xFFFD # utf8_decode 0 0 0 0x80 0xBF bs)
      else if \<not> (lo \<le> v \<and> v \<le> hi) then 0xFFFD # utf8_decode 0 0 0 0x80 0xBF (b # bs)
      else if Suc seen \<noteq> needed then
        utf8_decode (cp * 0x40 + v mod 0x40) (Suc seen) needed 0x80 0xBF bs
      else (cp * 0x40 + v mod 0x40) # utf8_decode 0 0 0 0x80 0xBF bs)"
  by pat_completeness auto
termination
  by (relation "measures [\<lambda>(cp, seen, needed, lo, hi, bs). length bs,
                          \<lambda>(cp, seen, needed, lo, hi, bs). needed]") auto

definition utf16_units :: "nat \<Rightarrow> nat list" where
  "utf16_units cp =
     (if cp < 0x10000 then [cp]
      else [0xD800 + (cp - 0x10000) div 0x400, 0xDC00 + (cp - 0x10000) mod 0x400])"

definition TextDecoder_decode :: "byte list \<Rightarrow> jstring" where
  "TextDecoder_decode bs =
     (let cps = utf8_decode 0 0 0 0x80 0xBF bs;
          cps' = (case cps of [] \<Rightarrow> [] | c # cs \<Rightarrow> if c = 0xFEFF then cs else c # cs)
      in concat (map utf16_units cps'))"

section \<open>The extractor (src/tools/security.ts)\<close>

text \<open>
  \<open>SecurityTxtInfo\<close>: an object with string keys and string values, as the list of its
  own properties.  Assigning to the key \<open>__proto__\<close> with a string value reaches the
  setter of \<open>Object.prototype\<close>, which ignores it, and creates no property.
\<close>

type_synonym SecurityTxtInfo = "(jstring \<times> jstring) list"

definition obj_set :: "jstring \<Rightarrow> jstring \<Rightarrow> SecurityTxtInfo \<Rightarrow> SecurityTxtInfo" where
  "obj_set k v obj = (if k = str ''__proto__'' then obj else AList.update k v obj)"

text \<open>
  \<open>parseSecurityTxt\<close>.  \<open>parse_lines\<close> is its loop over the lines; the result \<open>None\<close> stands
  for the \<open>TypeError\<close> that \<open>field.trim()\<close> or \<open>value.trim()\<close> would throw on a group that
  did not take part in the match.
\<close>

definition kebab_to_camel :: "jstring \<Rightarrow> jstring" where
  "kebab_to_camel fieldName =
     replace_all False re_kebab
       (\<lambda>caps. case map_of caps 1 of Some letter \<Rightarrow> toUpperCase_ascii letter | None \<Rightarrow> [])
       0 fieldName"

fun parse_lines ::
  "(jstring \<Rightarrow> jstring) \<Rightarrow> jstring list \<Rightarrow> SecurityTxtInfo \<Rightarrow> SecurityTxtInfo option" where
  "parse_lines L [] result = Some result"
| "parse_lines L (line # lines) result =
     (if trim line = [] \<or> startsWith (trim line) (str ''#'') then parse_lines L lines result
      else (case str_match False re_field_line line of
              None \<Rightarrow> parse_lines L lines result
            | Some (_, caps) \<Rightarrow>
                (case (map_of caps 1, map_of caps 2) of
                   (Some field, Some val) \<Rightarrow>
                     (let fieldName = toLowerCase L (trim field);
                          camelCaseField = kebab_to_camel fieldName
                      in parse_lines L lines (obj_set camelCaseField (trim val) result))
                 | _ \<Rightarrow> None)))"

definition parseSecurityTxt :: "(jstring \<Rightarrow> jstring) \<Rightarrow> jstring \<Rightarrow> SecurityTxtInfo option" where
  "parseSecurityTxt L content = parse_lines L (js_split 0x0A content) []"

text \<open>\<open>extractSecurityInfoFromText\<close>\<close>

definition extractSecurityInfoFromText :: "jstring \<Rightarrow> SecurityTxtInfo" where
  "extractSecurityInfoFromText txt =
     (let contactMatches =
            match_all False re_security_email 0 txt @
            match_all False re_mailto 0 txt @
            match_all False (re_url ''/security'') 0 txt @
            match_all False (re_url ''/responsible-disclosure'') 0 txt @
            match_all False (re_url ''/vulnerability'') 0 txt;
          result = (case contactMatches of
                      [] \<Rightarrow> []
                    | m # _ \<Rightarrow> obj_set (str ''contact'') m []);
          pgpMatches = match_all False re_pgp 0 txt
      in if pgpMatches \<noteq> []
         then obj_set (str ''encryption'') (str ''PGP key found in program data'') result
         else result)"

text \<open>
  \<open>findAndParseSecurityTxt\<close>.  Whatever is thrown inside is caught and \<open>{}\<close> is returned;
  the only throwing operations are the \<open>trim\<close> calls on a group that took no part in its
  match.  \<open>truthy_group1 m\<close> is the test \<open>m && m[1]\<close>: the first group when there is a
  match and the group is a non-empty string.  The function tries its patterns one after
  the other and returns at the first that applies: \<open>from_pattern1\<close> is its body from the
  comment "Pattern 1" on, \<open>from_pattern2\<close> from "Pattern 2" on and \<open>from_pattern3\<close> from
  "Pattern 3" on.
\<close>

definition parseSecurityTxt_caught :: "(jstring \<Rightarrow> jstring) \<Rightarrow> jstring \<Rightarrow> SecurityTxtInfo" where
  "parseSecurityTxt_caught L content =
     (case parseSecurityTxt L content of Some r \<Rightarrow> r | None \<Rightarrow> [])"

definition truthy_group1 :: "(jstring \<times> (nat \<times> jstring) list) option \<Rightarrow> jstring option" where
  "truthy_group1 m =
     (case m of
        None \<Rightarrow> None
      | Some (_, caps) \<Rightarrow> (case map_of caps 1 of None \<Rightarrow> None | Some [] \<Rightarrow> None | Some c \<Rightarrow> Some c))"

definition from_pattern3 :: "jstring \<Rightarrow> SecurityTxtInfo" where
  "from_pattern3 dataString =
     (let fieldMatch =
            (case str_match True re_contact dataString of
               Some m \<Rightarrow> Some m
             | None \<Rightarrow>
                 (case str_match True re_security_contact dataString of
                    Some m \<Rightarrow> Some m
                  | None \<Rightarrow> str_match True re_mailto_field dataString))
      in case fieldMatch of
           Some (_, caps) \<Rightarrow>
             (case map_of caps 1 of
                Some c \<Rightarrow> obj_set (str ''contact'') (trim c) []
              | None \<Rightarrow> [])
         | None \<Rightarrow> extractSecurityInfoFromText dataString)"

definition from_pattern2 :: "(jstring \<Rightarrow> jstring) \<Rightarrow> jstring \<Rightarrow> SecurityTxtInfo" where
  "from_pattern2 L dataString =
     (let securityTxtBlockMatch = str_match True re_delimited dataString
      in case truthy_group1 securityTxtBlockMatch of
           Some c \<Rightarrow> parseSecurityTxt_caught L c
         | None \<Rightarrow> from_pattern3 dataString)"

definition from_pattern1 :: "(jstring \<Rightarrow> jstring) \<Rightarrow> jstring \<Rightarrow> SecurityTxtInfo" where
  "from_pattern1 L dataString =
     (let securityTxtMatch = str_match True re_standard dataString
      in case truthy_group1 securityTxtMatch of
           Some c \<Rightarrow> parseSecurityTxt_caught L c
         | None \<Rightarrow> from_pattern2 L dataString)"

definition findAndParseSecurityTxt :: "(jstring \<Rightarrow> jstring) \<Rightarrow> byte list \<Rightarrow> SecurityTxtInfo" where
  "findAndParseSecurityTxt L programData =
     (let dataString = TextDecoder_decode programData in from_pattern1 L dataString)"

section \<open>Accounts and the request handler\<close>

text \<open>
  A \<open>PublicKey\<close> holds a big number; two keys are equal when their numbers are.  Built
  from a buffer, the number is the big-endian value of the bytes, and a number of more
  than 32 bytes is refused.  Built from a string, the string is decoded as base 58 and
  must give 32 bytes.
\<close>

type_synonym PublicKey = nat

datatype error = Error string

definition be_nat :: "byte list \<Rightarrow> nat" where
  "be_nat bs = foldl (\<lambda>n b. n * 256 + unat b) 0 bs"

definition PublicKey_of_buffer :: "byte list \<Rightarrow> error + PublicKey" where
  "PublicKey_of_buffer bs =
     (if 2 ^ 256 \<le> be_nat bs then Inl (Error ''Invalid public key input'') else Inr (be_nat bs))"

definition base58_alphabet :: string where
  "base58_alphabet = ''123456789ABCDEFGHJKLMNPQRSTUVWXYZabcdefghijkmnopqrstuvwxyz''"

fun index_of :: "'a \<Rightarrow> 'a list \<Rightarrow> nat" where
  "index_of a [] = 0"
| "index_of a (b # bs) = (if a = b then 0 else Suc (index_of a bs))"

definition base58_value :: "string \<Rightarrow> nat" where
  "base58_value s = foldl (\<lambda>n c. n * 58 + index_of c base58_alphabet) 0 s"

text \<open>The number of bytes of the shortest big-endian representation, up to 33.\<close>

definition byte_length :: "nat \<Rightarrow> nat" where
  "byte_length n = length (filter (\<lambda>k. 256 ^ k \<le> n) [0..<33])"

definition PublicKey_of_string :: "string \<Rightarrow> error + PublicKey" where
  "PublicKey_of_string s =
     (if \<exists>c \<in> set s. c \<notin> set base58_alphabet then Inl (Error ''Non-base58 character'')
      else if length (takeWhile (\<lambda>c. c = CHR ''1'') s) + byte_length (base58_value s) \<noteq> 32
      then Inl (Error ''Invalid public key input'')
      else Inr (base58_value s))"

definition BPF_UPGRADEABLE_LOADER_ID :: PublicKey where
  "BPF_UPGRADEABLE_LOADER_ID = base58_value ''BPFLoaderUpgradeab1e11111111111111111111111''"

record AccountInfo =
  owner :: PublicKey
  data :: "byte list"

text \<open>
  \<open>connection.getAccountInfo\<close>: the account, \<open>null\<close>, or an error thrown by the
  transport.
\<close>

type_synonym Connection = "PublicKey \<Rightarrow> error + AccountInfo option"

text \<open>\<open>buf.slice(a, b)\<close> for \<open>0 \<le> a \<le> b\<close>\<close>

definition slice :: "nat \<Rightarrow> nat \<Rightarrow> 'a list \<Rightarrow> 'a list" where
  "slice a b bs = take (b - a) (drop a bs)"

text \<open>
  The first part of \<open>getSecurityTxtInfo\<close>: the bytes that are searched
  (\<open>programData\<close>), or the error thrown, with the keys given to \<open>getAccountInfo\<close> in
  the order of the calls.
\<close>

definition programData_of :: "Connection \<Rightarrow> PublicKey \<Rightarrow> PublicKey list \<times> (error + byte list)" where
  "programData_of connection programId =
     (case connection programId of
        Inl e \<Rightarrow> ([programId], Inl e)
      | Inr None \<Rightarrow> ([programId], Inl (Error ''Program account not found''))
      | Inr (Some programAccount) \<Rightarrow>
          if owner programAccount = BPF_UPGRADEABLE_LOADER_ID then
            (let accountType = slice 0 4 (data programAccount) in
             if accountType \<noteq> [] \<and> hd accountType = 2 then
               (case PublicKey_of_buffer (slice 4 36 (data programAccount)) of
                  Inl e \<Rightarrow> ([programId], Inl e)
                | Inr programDataAddress \<Rightarrow>
                    (case connection programDataAddress of
                       Inl e \<Rightarrow> ([programId, programDataAddress], Inl e)
                     | Inr None \<Rightarrow>
                         ([programId, programDataAddress],
                          Inl (Error ''Program data account not found''))
                     | Inr (Some programDataAccount) \<Rightarrow>
                         ([programId, programDataAddress],
                          Inr (drop 8 (data programDataAccount)))))
             else ([programId], Inl (Error ''Not a valid upgradeable program account'')))
          else ([programId], Inr (data programAccount)))"

definition getSecurityTxtInfo ::
  "(jstring \<Rightarrow> jstring) \<Rightarrow> Connection \<Rightarrow> PublicKey \<Rightarrow> PublicKey list \<times> (error + SecurityTxtInfo)" where
  "getSecurityTxtInfo L connection programId =
     (case programData_of connection programId of
        (fetched, Inl e) \<Rightarrow> (fetched, Inl e)
      | (fetched, Inr programData) \<Rightarrow> (fetched, Inr (findAndParseSecurityTxt L programData)))"

text \<open>
  The handler of the action \<open>GET_SECURITY_TXT\<close> (src/actions/security/getSecurityTxt.ts).
  \<open>info\<close> is \<open>None\<close> both for \<open>null\<close> and for a response without the field.
\<close>

record response =
  status :: string
  info :: "SecurityTxtInfo option"
  message :: string

definition handler ::
  "(jstring \<Rightarrow> jstring) \<Rightarrow> Connection \<Rightarrow> string \<Rightarrow> PublicKey list \<times> response" where
  "handler L connection programId =
     (case PublicKey_of_string programId of
        Inl (Error m) \<Rightarrow>
          ([], \<lparr>status = ''error'', info = None,
                message = ''Failed to get security.txt info: '' @ m\<rparr>)
      | Inr programPubkey \<Rightarrow>
          (case getSecurityTxtInfo L connection programPubkey of
             (fetched, Inl (Error m)) \<Rightarrow>
               (fetched, \<lparr>status = ''error'', info = None,
                          message = ''Failed to get security.txt info: '' @ m\<rparr>)
           | (fetched, Inr securityInfo) \<Rightarrow>
               if length securityInfo = 0
               then (fetched, \<lparr>status = ''warning'', info = None,
                                message = ''No security.txt information found for this program''\<rparr>)
               else (fetched, \<lparr>status = ''success'', info = Some securityInfo,
                                message = ''Successfully retrieved security.txt information''\<rparr>)))"


section \<open>Reference functions\<close>

text \<open>
  Functions on strings in terms of which the behaviour of the patterns is stated and
  proved below.  \<open>lit_prefix ic s w\<close>: the literal \<open>s\<close> is a prefix of \<open>w\<close>, up to case when
  \<open>ic\<close> holds.
\<close>

fun lit_prefix :: "bool \<Rightarrow> string \<Rightarrow> jstring \<Rightarrow> bool" where
  "lit_prefix ic [] w = True"
| "lit_prefix ic (c # cs) [] = False"
| "lit_prefix ic (c # cs) (d # ds) = (canon ic d = canon ic (ch c) \<and> lit_prefix ic cs ds)"

text \<open>
  The end states of \<open>c*\<close> (greedy) or \<open>c*?\<close> (lazy) for an atom \<open>c\<close> that accepts one code
  unit satisfying \<open>p\<close>, in the order of backtracking.
\<close>

fun star1 :: "(nat \<Rightarrow> bool) \<Rightarrow> bool \<Rightarrow> nat \<Rightarrow> jstring \<Rightarrow> (nat \<times> jstring) list \<Rightarrow> mstate list" where
  "star1 p g i [] caps = [MState i [] caps]"
| "star1 p g i (c # cs) caps =
     (if p c
      then (if g then star1 p g (Suc i) cs caps @ [MState i (c # cs) caps]
            else MState i (c # cs) caps # star1 p g (Suc i) cs caps)
      else [MState i (c # cs) caps])"

fun no_grp :: "regex \<Rightarrow> bool" where
  "no_grp (Seq a b) = (no_grp a \<and> no_grp b)"
| "no_grp (Alt a b) = (no_grp a \<and> no_grp b)"
| "no_grp (Star r g) = no_grp r"
| "no_grp (Grp n r) = False"
| "no_grp _ = True"

text \<open>The first position of \<open>w\<close> from which the rest satisfies \<open>P\<close>.\<close>

fun first_pos :: "(jstring \<Rightarrow> bool) \<Rightarrow> jstring \<Rightarrow> nat option" where
  "first_pos P [] = (if P [] then Some 0 else None)"
| "first_pos P (c # cs) = (if P (c # cs) then Some 0 else map_option Suc (first_pos P cs))"

text \<open>The first index, from \<open>i\<close> on, at which \<open>f\<close> yields a result.\<close>

fun scan :: "(nat \<Rightarrow> jstring \<Rightarrow> 'a option) \<Rightarrow> nat \<Rightarrow> jstring \<Rightarrow> 'a option" where
  "scan f i [] = f i []"
| "scan f i (c # cs) = (case f i (c # cs) of Some a \<Rightarrow> Some a | None \<Rightarrow> scan f (Suc i) cs)"

text \<open>
  The standard block.  \<open>after_hash i w\<close>: at index \<open>i\<close> the input \<open>w\<close> starts a line with
  \<open>#\<close>, and what follows the \<open>#\<close>.  \<open>header_rest i w\<close>: a header line starts at index \<open>i\<close>,
  and what follows it.  \<open>block_end\<close>: a blank line, a line starting with \<open>#\<close>, or the end
  of the input comes next; \<open>block_len\<close>: the length of the block that ends there.
\<close>

definition after_hash :: "nat \<Rightarrow> jstring \<Rightarrow> jstring option" where
  "after_hash i w =
     (case w of
        [] \<Rightarrow> None
      | c # cs \<Rightarrow>
          if i = 0 \<and> c = 0x23 then Some cs
          else if c = 0x0A then (case cs of [] \<Rightarrow> None | d # ds \<Rightarrow> if d = 0x23 then Some ds else None)
          else None)"

definition skip_space :: "jstring \<Rightarrow> jstring" where
  "skip_space w = (case w of [] \<Rightarrow> [] | c # cs \<Rightarrow> if c = 0x20 then cs else c # cs)"

definition header_rest :: "nat \<Rightarrow> jstring \<Rightarrow> jstring option" where
  "header_rest i w =
     (case after_hash i w of
        None \<Rightarrow> None
      | Some w1 \<Rightarrow>
          if lit_prefix True ''security.txt'' (skip_space w1)
          then (case drop (length ''security.txt'') (skip_space w1) of
                  [] \<Rightarrow> Some []
                | c # cs \<Rightarrow> if c = 0x0A then Some cs else None)
          else None)"

fun block_end :: "jstring \<Rightarrow> bool" where
  "block_end [] = True"
| "block_end [c] = False"
| "block_end (c # d # ds) = (c = 0x0A \<and> (d = 0x0A \<or> d = 0x23))"

fun block_len :: "jstring \<Rightarrow> nat" where
  "block_len [] = 0"
| "block_len (c # cs) = (if block_end (c # cs) then 0 else Suc (block_len cs))"

definition std_capture :: "jstring \<Rightarrow> jstring option" where
  "std_capture s = scan (\<lambda>i w. map_option (\<lambda>v. take (block_len v) v) (header_rest i w)) 0 s"

text \<open>
  A header line in the words of the claim: \<open>#security.txt\<close> or \<open># security.txt\<close>, up to
  case, up to the end of its line; \<open>has_header s\<close>: such a line starts \<open>s\<close> or follows a
  newline of \<open>s\<close>.
\<close>

definition is_header_line :: "string \<Rightarrow> jstring \<Rightarrow> bool" where
  "is_header_line h w \<longleftrightarrow>
     lit_prefix True h w \<and> (drop (length h) w = [] \<or> (\<exists>v. drop (length h) w = 0x0A # v))"

definition has_header :: "jstring \<Rightarrow> bool" where
  "has_header s \<longleftrightarrow>
     (\<exists>pre w. s = pre @ w \<and> (pre = [] \<or> last pre = 0x0A) \<and>
        (is_header_line ''#security.txt'' w \<or> is_header_line ''# security.txt'' w))"

definition hdr_line :: "jstring \<Rightarrow> bool" where
  "hdr_line w \<longleftrightarrow> is_header_line ''#security.txt'' w \<or> is_header_line ''# security.txt'' w"

text \<open>The bytes of an ASCII literal.\<close>

definition bytes_of :: "string \<Rightarrow> byte list" where
  "bytes_of s = map of_char s"

text \<open>
  The normalizer.  \<open>field_line line\<close>: the field and the value that the pattern
  \<open>/^([^:]+):\s*(.*)$/\<close> finds in a line; \<open>camel_spec\<close>: each \<open>-\<close> followed by a letter
  \<open>a\<close>..\<open>z\<close> becomes the upper-cased letter; \<open>line_entry\<close>: the key and the value that a line
  contributes, and \<open>add_entry\<close>: the mapping with this entry added.
\<close>

definition field_line :: "jstring \<Rightarrow> (jstring \<times> jstring) option" where
  "field_line line =
     (let f = takeWhile (\<lambda>c. c \<noteq> 0x3A) line; r = dropWhile (\<lambda>c. c \<noteq> 0x3A) line in
      if f = [] \<or> r = [] then None
      else (let v = dropWhile is_ws (tl r) in
            if \<exists>c \<in> set v. is_line_terminator c then None else Some (f, v)))"

fun camel_spec :: "jstring \<Rightarrow> jstring" where
  "camel_spec (c # d # cs) =
     (if c = 0x2D \<and> 0x61 \<le> d \<and> d \<le> 0x7A then (d - 0x20) # camel_spec cs
      else c # camel_spec (d # cs))"
| "camel_spec cs = cs"

definition line_entry :: "(jstring \<Rightarrow> jstring) \<Rightarrow> jstring \<Rightarrow> (jstring \<times> jstring) option" where
  "line_entry L line =
     (if trim line = [] \<or> startsWith (trim line) (str ''#'') then None
      else (case field_line line of
              None \<Rightarrow> None
            | Some (f, v) \<Rightarrow> Some (camel_spec (toLowerCase L (trim f)), trim v)))"

definition add_entry :: "(jstring \<Rightarrow> jstring) \<Rightarrow> SecurityTxtInfo \<Rightarrow> jstring \<Rightarrow> SecurityTxtInfo" where
  "add_entry L result line =
     (case line_entry L line of None \<Rightarrow> result | Some (k, v) \<Rightarrow> obj_set k v result)"

text \<open>
  The shape of a text with a standard block.  \<open>lit_eq ic s w\<close>: \<open>w\<close> is the literal \<open>s\<close>, up to
  case when \<open>ic\<close> holds; \<open>header_text h\<close>: \<open>h\<close> is \<open>#security.txt\<close> or \<open># security.txt\<close>, up to
  case.  \<open>join_lines\<close> puts a newline between lines, \<open>render\<close> writes a field as
  \<open>key: value\<close>.  \<open>valid_key\<close>: a key is not empty, has no newline and no colon, does not
  start with \<open>#\<close> and has no white space at either end; \<open>valid_value\<close>: a value has no line
  terminator and no white space at either end.  \<open>entry_of\<close>: the mapping with a field added
  under its folded key.
\<close>

definition lit_eq :: "bool \<Rightarrow> string \<Rightarrow> jstring \<Rightarrow> bool" where
  "lit_eq ic s w \<longleftrightarrow> lit_prefix ic s w \<and> length w = length s"

definition header_text :: "jstring \<Rightarrow> bool" where
  "header_text h \<longleftrightarrow> lit_eq True ''#security.txt'' h \<or> lit_eq True ''# security.txt'' h"

fun join_lines :: "jstring list \<Rightarrow> jstring" where
  "join_lines [] = []"
| "join_lines [l] = l"
| "join_lines (l # l' # ls) = l @ 0x0A # join_lines (l' # ls)"

definition render :: "jstring \<times> jstring \<Rightarrow> jstring" where
  "render kv = fst kv @ [0x3A, 0x20] @ snd kv"

definition valid_key :: "jstring \<Rightarrow> bool" where
  "valid_key k \<longleftrightarrow>
     k \<noteq> [] \<and> 0x0A \<notin> set k \<and> 0x3A \<notin> set k \<and> hd k \<noteq> 0x23 \<and> \<not> is_ws (hd k) \<and> \<not> is_ws (last k)"

definition valid_value :: "jstring \<Rightarrow> bool" where
  "valid_value v \<longleftrightarrow>
     \<not> (\<exists>c \<in> set v. is_line_terminator c) \<and> (v = [] \<or> (\<not> is_ws (hd v) \<and> \<not> is_ws (last v)))"

definition entry_of :: "(jstring \<Rightarrow> jstring) \<Rightarrow> SecurityTxtInfo \<Rightarrow> jstring \<times> jstring \<Rightarrow> SecurityTxtInfo" where
  "entry_of L obj kv = obj_set (camel_spec (toLowerCase L (fst kv))) (snd kv) obj"

text \<open>
  The single fields.  \<open>field_value key w\<close>: \<open>w\<close> starts with the literal \<open>key\<close>, up to case,
  followed by a code unit other than a newline, and the rest of the line from there;
  \<open>field_capture key s\<close>: the value at the first index of \<open>s\<close> that has one.
\<close>

definition field_value :: "string \<Rightarrow> jstring \<Rightarrow> jstring option" where
  "field_value key w =
     (if lit_prefix True key w
      then (case drop (length key) w of
              [] \<Rightarrow> None
            | c # cs \<Rightarrow> if c = 0x0A then None else Some (takeWhile (\<lambda>d. d \<noteq> 0x0A) (c # cs)))
      else None)"

definition field_capture :: "string \<Rightarrow> jstring \<Rightarrow> jstring option" where
  "field_capture key s = scan (\<lambda>i w. field_value key w) 0 s"

text \<open>
  The delimited blocks.  \<open>delim_value ic b e w\<close>: \<open>w\<close> starts with the marker \<open>b\<close> and the
  marker \<open>e\<close> occurs after it, and what stands between \<open>b\<close> and the first \<open>e\<close>;
  \<open>delim_capture ic b e s\<close>: the value at the first index of \<open>s\<close> that has one.
\<close>

definition delim_value :: "bool \<Rightarrow> string \<Rightarrow> string \<Rightarrow> jstring \<Rightarrow> jstring option" where
  "delim_value ic b e w =
     (if lit_prefix ic b w
      then map_option (\<lambda>m. take m (drop (length b) w))
             (first_pos (lit_prefix ic e) (drop (length b) w))
      else None)"

definition delim_capture :: "bool \<Rightarrow> string \<Rightarrow> string \<Rightarrow> jstring \<Rightarrow> jstring option" where
  "delim_capture ic b e s = scan (\<lambda>i w. delim_value ic b e w) 0 s"

text \<open>
  The fallback.  \<open>first_match ic rs s\<close>: the first match in \<open>s\<close> of the first pattern of the
  list \<open>rs\<close> that matches \<open>s\<close> at all.
\<close>

fun first_match :: "bool \<Rightarrow> regex list \<Rightarrow> jstring \<Rightarrow> jstring option" where
  "first_match ic [] s = None"
| "first_match ic (r # rs) s =
     (case str_match ic r s of Some (m, caps) \<Rightarrow> Some m | None \<Rightarrow> first_match ic rs s)"

section \<open>A match consumes a prefix of the input\<close>

lemma one_char_suffix:
  "t \<in> set (one_char p st) \<Longrightarrow>
     rest t = drop (endIndex t - endIndex st) (rest st) \<and> endIndex st \<le> endIndex t \<and>
     endIndex t - endIndex st \<le> length (rest st)"
  by (cases "rest st") (auto simp: one_char_def advance_def split: if_splits)

lemma ms_suffix:
  "t \<in> set (ms ic r st) \<Longrightarrow>
     rest t = drop (endIndex t - endIndex st) (rest st) \<and> endIndex st \<le> endIndex t \<and>
     endIndex t - endIndex st \<le> length (rest st)"
proof (induction ic r st arbitrary: t rule: ms.induct)
  case (7 ic a b st)
  then obtain u where u: "u \<in> set (ms ic a st)" "t \<in> set (ms ic b u)"
    by auto
  from "7.IH"(1)[OF u(1)] "7.IH"(2)[OF u(1) u(2)] show ?case
    by auto
next
  case (9 ic r greedy st)
  show ?case
  proof (cases "t = st")
    case True
    then show ?thesis by simp
  next
    case False
    from "9.prems" have "t \<in> set (let more = concat (map (\<lambda>t. if length (rest t) < length (rest st)
                                    then ms ic (Star r greedy) t else [])
                             (ms ic r st))
      in if greedy then more @ [st] else st # more)"
      by (subst (asm) ms.simps(9)) simp
    with False obtain u where u: "u \<in> set (ms ic r st)"
        "length (rest u) < length (rest st)" "t \<in> set (ms ic (Star r greedy) u)"
      by (auto simp: Let_def split: if_splits)
    from "9.IH"(1)[OF u(1)] "9.IH"(2)[OF u(1) u(2) u(3)] show ?thesis
      by auto
  qed
next
  case (10 ic n r st)
  then show ?case by auto
next
  case (8 ic a b st)
  then show ?case by auto
qed (simp_all add: one_char_suffix split: if_splits)

lemma exec_from_suffix:
  "exec_from ic r i s = Some (k, t) \<Longrightarrow>
     rest t = drop (endIndex t - i) s \<and> i \<le> k \<and> k \<le> endIndex t \<and> endIndex t - i \<le> length s"
proof (induction s arbitrary: i)
  case Nil
  then have "t \<in> set (ms ic r (MState i [] []))" "k = i"
    by (auto split: list.splits)
  from ms_suffix[OF this(1)] this(2) show ?case by simp
next
  case (Cons c s)
  show ?case
  proof (cases "ms ic r (MState i (c # s) [])")
    case Nil
    with Cons.prems have "exec_from ic r (Suc i) s = Some (k, t)" by simp
    from Cons.IH[OF this] have *: "rest t = drop (endIndex t - Suc i) s" "Suc i \<le> k"
      "k \<le> endIndex t" "endIndex t - Suc i \<le> length s" by simp_all
    from *(2,3) have "endIndex t - i = Suc (endIndex t - Suc i)" by arith
    with * show ?thesis by simp
  next
    case (Cons u us)
    with Cons.prems have ku: "k = i" "t = u" by simp_all
    with Cons have "t \<in> set (ms ic r (MState i (c # s) []))"
      by simp
    from ms_suffix[OF this] ku show ?thesis by simp
  qed
qed

lemma exec_from_shorter:
  assumes "exec_from ic r i s = Some (k, t)"
  shows "length (rest t) \<le> length s"
    and "endIndex t \<noteq> k \<Longrightarrow> length (rest t) < length s"
proof -
  from exec_from_suffix[OF assms] have *: "rest t = drop (endIndex t - i) s" "i \<le> k"
    "k \<le> endIndex t" "endIndex t - i \<le> length s" by simp_all
  show "length (rest t) \<le> length s" using * by simp
  show "length (rest t) < length s" if "endIndex t \<noteq> k"
  proof -
    from that * have "0 < endIndex t - i" by arith
    moreover from that * have "0 < length s" by arith
    ultimately show ?thesis using * by simp
  qed
qed

termination match_all
proof (relation "measure (\<lambda>(ic, r, i, s). length s)", goal_cases)
  case 1
  show ?case by simp
next
  case (2 ic r i s p k t c s')
  with exec_from_shorter(1)[of ic r i s k t] show ?case by simp
next
  case (3 ic r i s p k t)
  with exec_from_shorter(2)[of ic r i s k t] show ?case by simp
qed

termination replace_all
proof (relation "measure (\<lambda>(ic, r, f, i, s). length s)", goal_cases)
  case 1
  show ?case by simp
next
  case (2 ic r f i s p k t c s')
  with exec_from_shorter(1)[of ic r i s k t] show ?case by simp
next
  case (3 ic r f i s p k t)
  with exec_from_shorter(2)[of ic r i s k t] show ?case by simp
qed

declare match_all.simps [simp del] replace_all.simps [simp del]

section \<open>The matcher on the constructs of the patterns\<close>

lemma map_of_update [simp]:
  "map_of (AList.update k v al) k' = (if k' = k then Some v else map_of al k')"
  by (simp add: update_conv')

lemma one_char_Nil [simp]: "one_char p (MState i [] caps) = []"
  by (simp add: one_char_def)

lemma one_char_Cons [simp]:
  "one_char p (MState i (d # ds) caps) = (if p d then [MState (Suc i) ds caps] else [])"
  by (simp add: one_char_def advance_def)

lemma re_lit_Nil: "re_lit [] = Emp"
  by (simp add: re_lit_def)

lemma re_lit_Cons: "re_lit (c # cs) = Seq (Lit (ch c)) (re_lit cs)"
  by (simp add: re_lit_def)

lemma re_seqs_Nil [simp]: "re_seqs [] = Emp"
  by (simp add: re_seqs_def)

lemma re_seqs_Cons [simp]: "re_seqs (r # rs) = Seq r (re_seqs rs)"
  by (simp add: re_seqs_def)

lemma ms_re_lit:
  "ms ic (re_lit s) (MState i w caps) =
     (if lit_prefix ic s w then [MState (i + length s) (drop (length s) w) caps] else [])"
proof (induction s arbitrary: i w)
  case Nil
  then show ?case by (simp add: re_lit_Nil)
next
  case (Cons c cs)
  then show ?case by (cases w) (simp_all add: re_lit_Cons)
qed

lemma ms_Seq_re_lit:
  "ms ic (Seq (re_lit s) Z) (MState i w caps) =
     (if lit_prefix ic s w then ms ic Z (MState (i + length s) (drop (length s) w) caps) else [])"
  by (simp add: ms_re_lit)

declare lit_prefix.simps [simp del]

lemma ms_star_one_char:
  assumes "\<And>st. ms ic r st = one_char p st"
  shows "ms ic (Star r g) (MState i w caps) = star1 p g i w caps"
proof (induction w arbitrary: i)
  case Nil
  show ?case by (subst ms.simps(9)) (simp add: assms)
next
  case (Cons c cs)
  show ?case by (subst ms.simps(9)) (simp add: assms Cons.IH)
qed

lemma any_char_one: "ms ic any_char st = one_char (\<lambda>_. True) st"
  by (auto simp: any_char_def)

lemma one_char_captures:
  "t \<in> set (one_char p st) \<Longrightarrow> captures t = captures st"
  by (cases st; cases "rest st") (auto split: if_splits)

lemma ms_no_grp:
  "t \<in> set (ms ic r st) \<Longrightarrow> no_grp r \<Longrightarrow> captures t = captures st"
proof (induction ic r st arbitrary: t rule: ms.induct)
  case (7 ic a b st)
  then obtain u where u: "u \<in> set (ms ic a st)" "t \<in> set (ms ic b u)"
    by auto
  from "7.IH"(1)[OF u(1)] "7.IH"(2)[OF u(1) u(2)] "7.prems"(2) show ?case
    by simp
next
  case (9 ic r greedy st)
  show ?case
  proof (cases "t = st")
    case True
    then show ?thesis by simp
  next
    case False
    from "9.prems"(1) have "t \<in> set (let more = concat (map (\<lambda>t. if length (rest t) < length (rest st)
                                    then ms ic (Star r greedy) t else [])
                             (ms ic r st))
      in if greedy then more @ [st] else st # more)"
      by (subst (asm) ms.simps(9)) simp
    with False obtain u where u: "u \<in> set (ms ic r st)"
        "length (rest u) < length (rest st)" "t \<in> set (ms ic (Star r greedy) u)"
      by (auto simp: Let_def split: if_splits)
    from "9.IH"(1)[OF u(1)] "9.IH"(2)[OF u(1) u(2) u(3)] "9.prems"(2) show ?thesis
      by simp
  qed
next
  case (8 ic a b st)
  then show ?case by auto
qed (auto simp: one_char_captures split: if_splits)

text \<open>The states of a lazy \<open>[\s\S]*?\<close> inside group \<open>n\<close>, started at index j on input v0.\<close>

lemma star1_lazy_any:
  "star1 (\<lambda>_. True) False i (c # cs) caps = MState i (c # cs) caps # star1 (\<lambda>_. True) False (Suc i) cs caps"
  by simp

lemma lazy_capture_aux:
  assumes ng: "no_grp R"
    and ok: "\<And>i w caps. (ms ic R (MState i w caps) \<noteq> []) = P w"
    and F: "\<And>i w. F (MState i w caps) = ms ic R (MState i w (AList.update n (take (i - j) v0) caps))"
    and v: "v = drop k v0" "k \<le> length v0"
  shows "(first_pos P v = None \<longrightarrow>
            concat (map F (star1 (\<lambda>_. True) False (j + k) v caps)) = []) \<and>
         (\<forall>m. first_pos P v = Some m \<longrightarrow>
            (\<exists>t ts. concat (map F (star1 (\<lambda>_. True) False (j + k) v caps)) = t # ts \<and>
                    map_of (captures t) n = Some (take (k + m) v0)))"
  using v
proof (induction v arbitrary: k)
  case Nil
  have c: "concat (map F (star1 (\<lambda>_. True) False (j + k) [] caps)) =
      ms ic R (MState (j + k) [] (AList.update n (take k v0) caps))"
    by (simp add: F)
  show ?case
  proof (cases "P []")
    case True
    with ok[of "j + k" "[]" "AList.update n (take k v0) caps"] obtain t ts where
      t: "ms ic R (MState (j + k) [] (AList.update n (take k v0) caps)) = t # ts"
      by (cases "ms ic R (MState (j + k) [] (AList.update n (take k v0) caps))") auto
    then have "t \<in> set (ms ic R (MState (j + k) [] (AList.update n (take k v0) caps)))" by simp
    from ms_no_grp[OF this ng] have "map_of (captures t) n = Some (take k v0)" by simp
    with t True show ?thesis unfolding c by simp
  next
    case False
    with ok[of "j + k" "[]" "AList.update n (take k v0) caps"] show ?thesis unfolding c by simp
  qed
next
  case (Cons c cs)
  have c: "concat (map F (star1 (\<lambda>_. True) False (j + k) (c # cs) caps)) =
      ms ic R (MState (j + k) (c # cs) (AList.update n (take k v0) caps)) @
      concat (map F (star1 (\<lambda>_. True) False (j + Suc k) cs caps))"
    by (simp add: F)
  show ?case
  proof (cases "P (c # cs)")
    case True
    with ok[of "j + k" "c # cs" "AList.update n (take k v0) caps"] obtain t ts where
      t: "ms ic R (MState (j + k) (c # cs) (AList.update n (take k v0) caps)) = t # ts"
      by (cases "ms ic R (MState (j + k) (c # cs) (AList.update n (take k v0) caps))") auto
    then have "t \<in> set (ms ic R (MState (j + k) (c # cs) (AList.update n (take k v0) caps)))" by simp
    from ms_no_grp[OF this ng] have "map_of (captures t) n = Some (take k v0)" by simp
    with t True show ?thesis unfolding c by simp
  next
    case False
    with ok[of "j + k" "c # cs" "AList.update n (take k v0) caps"]
    have e: "ms ic R (MState (j + k) (c # cs) (AList.update n (take k v0) caps)) = []" by simp
    from Cons.prems have "cs = drop (Suc k) v0" "Suc k \<le> length v0"
      by (metis drop_Suc tl_drop list.sel(3), metis Suc_leI drop_all le_neq_implies_less list.distinct(1))
    from Cons.IH[OF this] False e show ?thesis
      unfolding c by (cases "first_pos P cs") auto
  qed
qed

lemma lazy_capture:
  assumes ng: "no_grp R"
    and ok: "\<And>i w caps. (ms ic R (MState i w caps) \<noteq> []) = P w"
  shows "first_pos P v = None \<Longrightarrow>
           ms ic (Seq (Grp n (Star any_char False)) R) (MState j v caps) = []"
    and "first_pos P v = Some m \<Longrightarrow>
           \<exists>t ts. ms ic (Seq (Grp n (Star any_char False)) R) (MState j v caps) = t # ts \<and>
                    map_of (captures t) n = Some (take m v)"
proof -
  define F where "F = (\<lambda>t. ms ic R (MState (endIndex t) (rest t)
                      (AList.update n (take (endIndex t - j) v) (captures t))))"
  have F: "\<And>i w. F (MState i w caps) = ms ic R (MState i w (AList.update n (take (i - j) v) caps))"
    by (simp add: F_def)
  have m: "ms ic (Seq (Grp n (Star any_char False)) R) (MState j v caps) =
      concat (map F (star1 (\<lambda>_. True) False (j + 0) v caps))"
    by (simp add: ms_star_one_char[OF any_char_one] comp_def F_def)
  from lazy_capture_aux[OF ng ok F, of v 0]
  show "first_pos P v = None \<Longrightarrow>
           ms ic (Seq (Grp n (Star any_char False)) R) (MState j v caps) = []"
    and "first_pos P v = Some m \<Longrightarrow>
           \<exists>t ts. ms ic (Seq (Grp n (Star any_char False)) R) (MState j v caps) = t # ts \<and>
                    map_of (captures t) n = Some (take m v)"
    unfolding m by simp_all
qed

lemma canon_nl [simp]: "canon ic d = canon ic 0x0A \<longleftrightarrow> d = 0x0A"
  by (auto simp: canon_def ascii_upper_def)

lemma canon_hash [simp]: "canon ic d = canon ic 0x23 \<longleftrightarrow> d = 0x23"
  by (auto simp: canon_def ascii_upper_def)

lemma canon_space [simp]: "canon ic d = canon ic 0x20 \<longleftrightarrow> d = 0x20"
  by (auto simp: canon_def ascii_upper_def)

lemma ch_hash [simp]: "ch CHR ''#'' = 0x23"
  by (simp add: ch_def)

lemma first_pos_block_end: "first_pos block_end v = Some (block_len v)"
  by (induction v) auto

lemma ms_block_end:
  "(ms True (Seq (Alt (Seq (Lit 0x0A) (Lit 0x0A)) (Alt (Seq (Lit 0x0A) (Lit (ch CHR ''#''))) EOL)) Emp)
      (MState i w caps) \<noteq> []) = block_end w"
proof (cases w)
  case Nil
  then show ?thesis by simp
next
  case (Cons c cs)
  then show ?thesis by (cases cs) auto
qed

lemma ms_line_start:
  "after_hash i w = None \<Longrightarrow>
     ms True (Seq (Alt BOL (Lit 0x0A)) (Seq (Lit (ch CHR ''#'')) Z)) (MState i w caps) = []"
  "after_hash i w = Some w1 \<Longrightarrow>
     \<exists>k. ms True (Seq (Alt BOL (Lit 0x0A)) (Seq (Lit (ch CHR ''#'')) Z)) (MState i w caps) =
        ms True Z (MState k w1 caps)"
proof -
  show "after_hash i w = None \<Longrightarrow>
     ms True (Seq (Alt BOL (Lit 0x0A)) (Seq (Lit (ch CHR ''#'')) Z)) (MState i w caps) = []"
    by (cases w; cases "tl w") (auto simp: after_hash_def split: if_splits)
  show "after_hash i w = Some w1 \<Longrightarrow>
     \<exists>k. ms True (Seq (Alt BOL (Lit 0x0A)) (Seq (Lit (ch CHR ''#'')) Z)) (MState i w caps) =
        ms True Z (MState k w1 caps)"
    by (cases w; cases "tl w") (auto simp: after_hash_def split: if_splits)
qed

lemma ms_opt_space_lit:
  "\<not> lit_prefix True ''security.txt'' (skip_space w1) \<Longrightarrow>
     ms True (Seq (re_opt (Lit 0x20)) (Seq (re_lit ''security.txt'') Z)) (MState k w1 caps) = []"
  "lit_prefix True ''security.txt'' (skip_space w1) \<Longrightarrow>
     \<exists>j. ms True (Seq (re_opt (Lit 0x20)) (Seq (re_lit ''security.txt'') Z)) (MState k w1 caps) =
         ms True Z (MState j (drop (length ''security.txt'') (skip_space w1)) caps)"
proof -
  have sp: "\<not> lit_prefix True ''security.txt'' (0x20 # ds)" for ds
    by (simp add: lit_prefix.simps ch_def canon_def ascii_upper_def)
  show "\<not> lit_prefix True ''security.txt'' (skip_space w1) \<Longrightarrow>
     ms True (Seq (re_opt (Lit 0x20)) (Seq (re_lit ''security.txt'') Z)) (MState k w1 caps) = []"
  proof (cases w1)
    case Nil
    then show "\<not> lit_prefix True ''security.txt'' (skip_space w1) \<Longrightarrow> ?thesis"
      by (simp add: re_opt_def skip_space_def ms_re_lit)
  next
    case (Cons d ds)
    then show "\<not> lit_prefix True ''security.txt'' (skip_space w1) \<Longrightarrow> ?thesis"
      using sp by (cases "d = 0x20") (simp_all add: re_opt_def skip_space_def ms_re_lit)
  qed
  show "lit_prefix True ''security.txt'' (skip_space w1) \<Longrightarrow>
     \<exists>j. ms True (Seq (re_opt (Lit 0x20)) (Seq (re_lit ''security.txt'') Z)) (MState k w1 caps) =
         ms True Z (MState j (drop (length ''security.txt'') (skip_space w1)) caps)"
  proof (cases w1)
    case Nil
    then show "lit_prefix True ''security.txt'' (skip_space w1) \<Longrightarrow> ?thesis"
      by (simp add: lit_prefix.simps skip_space_def)
  next
    case (Cons d ds)
    then show "lit_prefix True ''security.txt'' (skip_space w1) \<Longrightarrow> ?thesis"
      using sp by (cases "d = 0x20") (auto simp add: re_opt_def skip_space_def ms_re_lit)
  qed
qed

lemma ms_line_end:
  "ms True (Seq (Alt (Lit 0x0A) EOL) Z) (MState j u caps) =
     (case u of [] \<Rightarrow> ms True Z (MState j [] caps)
      | e # es \<Rightarrow> if e = 0x0A then ms True Z (MState (Suc j) es caps) else [])"
  by (cases u) auto

lemma ms_standard:
  "header_rest i w = None \<Longrightarrow> ms True re_standard (MState i w caps) = []"
  "header_rest i w = Some v \<Longrightarrow>
     \<exists>t ts. ms True re_standard (MState i w caps) = t # ts \<and>
       map_of (captures t) 1 = Some (take (block_len v) v)"
proof -
  define T where "T = Seq (Alt (Seq (Lit 0x0A) (Lit 0x0A))
                       (Alt (Seq (Lit 0x0A) (Lit (ch CHR ''#''))) EOL)) Emp"
  define B where "B = Seq (Grp 1 (Star any_char False)) T"
  define E where "E = Seq (Alt (Lit 0x0A) EOL) B"
  define S where "S = Seq (re_opt (Lit 0x20)) (Seq (re_lit ''security.txt'') E)"
  have r: "re_standard = Seq (Alt BOL (Lit 0x0A)) (Seq (Lit (ch CHR ''#'')) S)"
    by (simp add: re_standard_def S_def E_def B_def T_def)
  have ng: "no_grp T" by (simp add: T_def)
  have body: "\<exists>t ts. ms True B (MState j u caps) = t # ts \<and>
       map_of (captures t) 1 = Some (take (block_len u) u)" for j u
    unfolding B_def T_def
    by (rule lazy_capture(2)[OF ng[unfolded T_def] ms_block_end first_pos_block_end])
  show "header_rest i w = None \<Longrightarrow> ms True re_standard (MState i w caps) = []"
  proof -
    assume h: "header_rest i w = None"
    show ?thesis
    proof (cases "after_hash i w")
      case None
      then show ?thesis unfolding r by (rule ms_line_start(1))
    next
      case (Some w1)
      from ms_line_start(2)[OF Some] obtain k where
        k: "ms True re_standard (MState i w caps) = ms True S (MState k w1 caps)"
        unfolding r by blast
      show ?thesis
      proof (cases "lit_prefix True ''security.txt'' (skip_space w1)")
        case False
        then show ?thesis unfolding k S_def by (rule ms_opt_space_lit(1))
      next
        case True
        from ms_opt_space_lit(2)[OF True] obtain j where
          j: "ms True S (MState k w1 caps) =
              ms True E (MState j (drop (length ''security.txt'') (skip_space w1)) caps)"
          unfolding S_def by blast
        from h Some True show ?thesis
          unfolding k j E_def ms_line_end
          by (auto simp: header_rest_def split: list.splits if_splits)
      qed
    qed
  qed
  show "header_rest i w = Some v \<Longrightarrow>
     \<exists>t ts. ms True re_standard (MState i w caps) = t # ts \<and>
       map_of (captures t) 1 = Some (take (block_len v) v)"
  proof -
    assume h: "header_rest i w = Some v"
    then obtain w1 where Some: "after_hash i w = Some w1"
      by (auto simp: header_rest_def split: option.splits)
    from ms_line_start(2)[OF Some] obtain k where
      k: "ms True re_standard (MState i w caps) = ms True S (MState k w1 caps)"
      unfolding r by blast
    from h Some have True: "lit_prefix True ''security.txt'' (skip_space w1)"
      by (auto simp: header_rest_def split: if_splits)
    from ms_opt_space_lit(2)[OF True] obtain j where
      j: "ms True S (MState k w1 caps) =
          ms True E (MState j (drop (length ''security.txt'') (skip_space w1)) caps)"
      unfolding S_def by blast
    from h Some True have "\<exists>j'. ms True E (MState j (drop (length ''security.txt'') (skip_space w1)) caps)
        = ms True B (MState j' v caps)"
      unfolding E_def ms_line_end
      by (auto simp: header_rest_def split: list.splits if_splits)
    then obtain j' where "ms True re_standard (MState i w caps) = ms True B (MState j' v caps)"
      unfolding k j by blast
    with body[of j' v] show ?thesis by simp
  qed
qed

lemma exec_from_scan1:
  assumes none: "\<And>i w. f i w = None \<Longrightarrow> ms ic r (MState i w []) = []"
    and some: "\<And>i w v. f i w = Some v \<Longrightarrow>
       \<exists>t ts. ms ic r (MState i w []) = t # ts \<and> map_of (captures t) n = Some v"
  shows "(case exec_from ic r i s of None \<Rightarrow> None | Some (k, t) \<Rightarrow> map_of (captures t) n) = scan f i s"
proof (induction s arbitrary: i)
  case Nil
  show ?case
  proof (cases "f i []")
    case None
    with none[OF None] show ?thesis by simp
  next
    case (Some v)
    with some[OF Some] show ?thesis by auto
  qed
next
  case (Cons c cs)
  show ?case
  proof (cases "f i (c # cs)")
    case None
    with none[OF None] Cons.IH show ?thesis by simp
  next
    case (Some v)
    with some[OF Some] show ?thesis by auto
  qed
qed

lemma str_match_scan1:
  assumes none: "\<And>i w. f i w = None \<Longrightarrow> ms ic r (MState i w []) = []"
    and some: "\<And>i w v. f i w = Some v \<Longrightarrow>
       \<exists>t ts. ms ic r (MState i w []) = t # ts \<and> map_of (captures t) n = Some v"
  shows "(case str_match ic r s of None \<Rightarrow> None | Some (m, caps) \<Rightarrow> map_of caps n) = scan f 0 s"
  using exec_from_scan1[of f ic r n 0 s, OF none some]
  by (auto simp: str_match_def split: option.splits)

lemma str_match_standard:
  "(case str_match True re_standard s of None \<Rightarrow> None | Some (m, caps) \<Rightarrow> map_of caps 1) = std_capture s"
  unfolding std_capture_def
proof (rule str_match_scan1)
  fix i w
  assume "map_option (\<lambda>v. take (block_len v) v) (header_rest i w) = None"
  then have "header_rest i w = None" by simp
  then show "ms True re_standard (MState i w []) = []" by (rule ms_standard(1))
next
  fix i w v
  assume "map_option (\<lambda>v. take (block_len v) v) (header_rest i w) = Some v"
  then obtain u where u: "header_rest i w = Some u" "v = take (block_len u) u" by auto
  from ms_standard(2)[OF u(1)] u(2)
  show "\<exists>t ts. ms True re_standard (MState i w []) = t # ts \<and> map_of (captures t) 1 = Some v"
    by simp
qed

lemma ch_space [simp]: "ch CHR '' '' = 0x20"
  by (simp add: ch_def)

lemma scan_Some_iff:
  "(scan f i s \<noteq> None) = (\<exists>k \<le> length s. f (i + k) (drop k s) \<noteq> None)"
proof (induction s arbitrary: i)
  case Nil
  show ?case by simp
next
  case (Cons c cs)
  show ?case
  proof (cases "f i (c # cs)")
    case (Some a)
    then have "f (i + 0) (drop 0 (c # cs)) \<noteq> None" by simp
    then have "\<exists>k \<le> length (c # cs). f (i + k) (drop k (c # cs)) \<noteq> None" by blast
    with Some show ?thesis by simp
  next
    case None
    have "(\<exists>k \<le> length (c # cs). f (i + k) (drop k (c # cs)) \<noteq> None) =
          (\<exists>k \<le> length cs. f (Suc i + k) (drop k cs) \<noteq> None)"
    proof
      assume "\<exists>k \<le> length (c # cs). f (i + k) (drop k (c # cs)) \<noteq> None"
      then obtain k where k: "k \<le> length (c # cs)" "f (i + k) (drop k (c # cs)) \<noteq> None" by blast
      with None have "k \<noteq> 0" by (cases k) auto
      then obtain m where "k = Suc m" by (cases k) auto
      with k show "\<exists>k \<le> length cs. f (Suc i + k) (drop k cs) \<noteq> None" by auto
    next
      assume "\<exists>k \<le> length cs. f (Suc i + k) (drop k cs) \<noteq> None"
      then obtain k where "k \<le> length cs" "f (Suc i + k) (drop k cs) \<noteq> None" by blast
      then have "Suc k \<le> length (c # cs)" "f (i + Suc k) (drop (Suc k) (c # cs)) \<noteq> None" by simp_all
      then show "\<exists>k \<le> length (c # cs). f (i + k) (drop k (c # cs)) \<noteq> None" by blast
    qed
    with None Cons.IH[of "Suc i"] show ?thesis by simp
  qed
qed

lemma hdr_line_iff:
  "hdr_line w = (\<exists>w1. w = 0x23 # w1 \<and> lit_prefix True ''security.txt'' (skip_space w1) \<and>
      (drop (length ''security.txt'') (skip_space w1) = [] \<or>
       (\<exists>v. drop (length ''security.txt'') (skip_space w1) = 0x0A # v)))"
proof -
  have sp: "\<not> lit_prefix True ''security.txt'' (0x20 # ds)" for ds
    by (simp add: lit_prefix.simps ch_def canon_def ascii_upper_def)
  have a: "lit_prefix True ''#security.txt'' u = (\<exists>ds. u = 0x23 # ds \<and> lit_prefix True ''security.txt'' ds)"
    for u
    by (cases u) (simp_all add: lit_prefix.simps(2,3))
  have b: "lit_prefix True ''# security.txt'' u =
      (\<exists>ds. u = 0x23 # 0x20 # ds \<and> lit_prefix True ''security.txt'' ds)" for u
    by (cases u; cases "tl u") (auto simp add: lit_prefix.simps(2,3))
  show ?thesis
  proof (cases w)
    case Nil
    then show ?thesis by (simp add: hdr_line_def is_header_line_def lit_prefix.simps)
  next
    case w: (Cons c w1)
    show ?thesis
    proof (cases w1)
      case Nil
      with w show ?thesis
        by (auto simp add: hdr_line_def is_header_line_def a b skip_space_def lit_prefix.simps)
    next
      case (Cons d ds)
      show ?thesis
      proof (cases "d = 0x20")
        case True
        with w Cons sp[of ds] show ?thesis
          by (auto simp add: hdr_line_def is_header_line_def a b skip_space_def)
      next
        case False
        with w Cons show ?thesis
          by (auto simp add: hdr_line_def is_header_line_def a b skip_space_def)
      qed
    qed
  qed
qed

lemma header_rest_iff:
  "(header_rest j w \<noteq> None) = ((j = 0 \<and> hdr_line w) \<or> (\<exists>w'. w = 0x0A # w' \<and> hdr_line w'))"
  unfolding hdr_line_iff
  by (cases w; cases "tl w")
     (auto simp: header_rest_def after_hash_def split: list.splits if_splits option.splits)

lemma has_header_iff: "has_header s = (std_capture s \<noteq> None)"
proof -
  have "(std_capture s \<noteq> None) = (\<exists>k \<le> length s. header_rest k (drop k s) \<noteq> None)"
    using scan_Some_iff[of "\<lambda>i w. map_option (\<lambda>v. take (block_len v) v) (header_rest i w)" 0 s]
    by (simp add: std_capture_def)
  also have "\<dots> = has_header s"
  proof
    assume "\<exists>k \<le> length s. header_rest k (drop k s) \<noteq> None"
    then obtain k where k: "k \<le> length s" "header_rest k (drop k s) \<noteq> None" by blast
    from k(2) consider "k = 0" "hdr_line (drop k s)" | w' where "drop k s = 0x0A # w'" "hdr_line w'"
      unfolding header_rest_iff by blast
    then show "has_header s"
    proof cases
      case 1
      then have "s = [] @ s" "hdr_line s" by simp_all
      then show ?thesis unfolding has_header_def hdr_line_def by blast
    next
      case 2
      have "s = take k s @ drop k s" by simp
      with 2 have "s = (take k s @ [0x0A]) @ w'" by simp
      moreover have "last (take k s @ [0x0A]) = 0x0A" by simp
      ultimately show ?thesis using 2(2) unfolding has_header_def hdr_line_def by blast
    qed
  next
    assume "has_header s"
    then obtain pre w where pw: "s = pre @ w" "pre = [] \<or> last pre = 0x0A" "hdr_line w"
      unfolding has_header_def hdr_line_def by blast
    show "\<exists>k \<le> length s. header_rest k (drop k s) \<noteq> None"
    proof (cases "pre = []")
      case True
      with pw have "header_rest 0 (drop 0 s) \<noteq> None" unfolding header_rest_iff by simp
      then show ?thesis by blast
    next
      case False
      with pw(2) obtain p where p: "pre = p @ [0x0A]"
        by (metis append_butlast_last_id)
      with pw have "drop (length p) s = 0x0A # w" by simp
      with pw(3) have "header_rest (length p) (drop (length p) s) \<noteq> None"
        unfolding header_rest_iff by simp
      moreover from p pw(1) have "length p \<le> length s" by simp
      ultimately show ?thesis by blast
    qed
  qed
  finally show ?thesis by simp
qed

lemma exec_from_scan_None:
  assumes none: "\<And>i w. f i w = None \<Longrightarrow> ms ic r (MState i w []) = []"
    and some: "\<And>i w v. f i w = Some v \<Longrightarrow>
       \<exists>t ts. ms ic r (MState i w []) = t # ts \<and> map_of (captures t) n = Some v"
  shows "(exec_from ic r i s = None) = (scan f i s = None)"
proof (induction s arbitrary: i)
  case Nil
  show ?case
  proof (cases "f i []")
    case None
    with none[OF None] show ?thesis by simp
  next
    case (Some v)
    with some[OF Some] show ?thesis by auto
  qed
next
  case (Cons c cs)
  show ?case
  proof (cases "f i (c # cs)")
    case None
    with none[OF None] Cons.IH show ?thesis by simp
  next
    case (Some v)
    with some[OF Some] show ?thesis by auto
  qed
qed

lemma str_match_standard_None: "(str_match True re_standard s = None) = (std_capture s = None)"
proof -
  have "(exec_from True re_standard 0 s = None) =
        (scan (\<lambda>i w. map_option (\<lambda>v. take (block_len v) v) (header_rest i w)) 0 s = None)"
  proof (rule exec_from_scan_None[where n = 1])
    fix i w
    assume "map_option (\<lambda>v. take (block_len v) v) (header_rest i w) = None"
    then have "header_rest i w = None" by simp
    then show "ms True re_standard (MState i w []) = []" by (rule ms_standard(1))
  next
    fix i w v
    assume "map_option (\<lambda>v. take (block_len v) v) (header_rest i w) = Some v"
    then obtain u where u: "header_rest i w = Some u" "v = take (block_len u) u" by auto
    from ms_standard(2)[OF u(1)] u(2)
    show "\<exists>t ts. ms True re_standard (MState i w []) = t # ts \<and> map_of (captures t) 1 = Some v"
      by simp
  qed
  then show ?thesis
    by (auto simp: str_match_def std_capture_def split: option.splits)
qed

lemma truthy_standard:
  "truthy_group1 (str_match True re_standard s) =
     (case std_capture s of None \<Rightarrow> None | Some [] \<Rightarrow> None | Some c \<Rightarrow> Some c)"
  unfolding str_match_standard[symmetric] truthy_group1_def
  by (auto split: option.splits list.splits)

lemmas std_eval = std_capture_def scan.simps header_rest_def after_hash_def skip_space_def
  lit_prefix.simps canon_def ascii_upper_def ch_def str_def

section \<open>The normalizer\<close>

lemma catom_mem_single: "catom_mem ic (CRange c c) d = (canon ic c = canon ic d)"
  by simp

lemma ms_not_colon: "ms False (Cls True [csingle CHR '':'']) st = one_char (\<lambda>d. d \<noteq> 0x3A) st"
  by (simp add: csingle_def ch_def canon_def eq_commute)

lemma ms_ws: "ms False (Cls False [CSpace]) st = one_char is_ws st"
  by simp

lemma ms_dot: "ms False Dot st = one_char (\<lambda>d. \<not> is_line_terminator d) st"
  by simp

lemma greedy_to_end:
  "concat (map (\<lambda>t. if rest t = [] then [G t] else []) (star1 p True j u caps)) =
     (if \<forall>c \<in> set u. p c then [G (MState (j + length u) [] caps)] else [])"
proof (induction u arbitrary: j)
  case Nil
  show ?case by simp
next
  case (Cons c cs)
  show ?case
  proof (cases "p c")
    case True
    then have "concat (map (\<lambda>t. if rest t = [] then [G t] else []) (star1 p True j (c # cs) caps)) =
        concat (map (\<lambda>t. if rest t = [] then [G t] else []) (star1 p True (Suc j) cs caps))"
      by simp
    also note Cons.IH[of "Suc j"]
    finally show ?thesis using True by simp
  next
    case False
    then show ?thesis by simp
  qed
qed

lemma greedy_then_fails:
  assumes "\<And>j c cs. p c \<Longrightarrow> F (MState j (c # cs) caps) = []"
  shows "concat (map F (star1 p True i w caps)) =
           F (MState (i + length (takeWhile p w)) (dropWhile p w) caps)"
proof (induction w arbitrary: i)
  case Nil
  show ?case by simp
next
  case (Cons c cs)
  show ?case
  proof (cases "p c")
    case True
    then have "concat (map F (star1 p True i (c # cs) caps)) =
        concat (map F (star1 p True (Suc i) cs caps))"
      by (simp add: assms)
    also note Cons.IH[of "Suc i"]
    finally show ?thesis using True by simp
  next
    case False
    then show ?thesis by simp
  qed
qed

lemma concat_map_if: "concat (map f (if c then [a] else [])) = (if c then f a else [])"
  by simp

lemma ms_value_end:
  "ms False (Seq (Grp 2 (Star Dot True)) (Seq EOL Emp)) (MState j u caps) =
     (if \<forall>c \<in> set u. \<not> is_line_terminator c
      then [MState (j + length u) [] (AList.update 2 (u) caps)] else [])"
proof -
  have "ms False (Seq (Grp 2 (Star Dot True)) (Seq EOL Emp)) (MState j u caps) =
      concat (map (\<lambda>t. if rest t = []
                         then [MState (endIndex t) (rest t) (AList.update 2 (take (endIndex t - j) u) (captures t))]
                         else [])
                  (star1 (\<lambda>d. \<not> is_line_terminator d) True j u caps))"
    by (simp add: ms_star_one_char[OF ms_dot] comp_def concat_map_if cong: if_cong)
  then show ?thesis unfolding greedy_to_end by simp
qed

lemma ms_ws_value_end:
  "(\<forall>c \<in> set (dropWhile is_ws r). \<not> is_line_terminator c) \<Longrightarrow>
     \<exists>ts. ms False (Seq (Star (Cls False [CSpace]) True)
                 (Seq (Grp 2 (Star Dot True)) (Seq EOL Emp))) (MState j r caps) =
       MState (j + length r) [] (AList.update 2 (dropWhile is_ws r) caps) # ts"
  "\<not> (\<forall>c \<in> set (dropWhile is_ws r). \<not> is_line_terminator c) \<Longrightarrow>
     ms False (Seq (Star (Cls False [CSpace]) True)
                 (Seq (Grp 2 (Star Dot True)) (Seq EOL Emp))) (MState j r caps) = []"
proof -
  define Z where "Z = Seq (Grp 2 (Star Dot True)) (Seq EOL Emp)"
  define X where "X = (\<lambda>j r. concat (map (ms False Z) (star1 is_ws True j r caps)))"
  have m: "ms False (Seq (Star (Cls False [CSpace]) True) Z) (MState j r caps) = X j r" for j r
    by (simp add: X_def ms_star_one_char[OF ms_ws])
  have z: "ms False Z (MState j u caps) =
     (if \<forall>c \<in> set u. \<not> is_line_terminator c
      then [MState (j + length u) [] (AList.update 2 (u) caps)] else [])" for j u
    unfolding Z_def by (rule ms_value_end)
  have X_Nil: "X j [] = [MState j [] (AList.update 2 ([]) caps)]" for j
    by (simp add: X_def z)
  have X_ws: "is_ws c \<Longrightarrow> X j (c # cs) = X (Suc j) cs @ ms False Z (MState j (c # cs) caps)"
    for j c cs
    by (simp add: X_def)
  have X_nws: "\<not> is_ws c \<Longrightarrow> X j (c # cs) = ms False Z (MState j (c # cs) caps)" for j c cs
    by (simp add: X_def)
  have main: "((\<forall>c \<in> set (dropWhile is_ws r). \<not> is_line_terminator c) \<longrightarrow>
          (\<exists>ts. X j r = MState (j + length r) [] (AList.update 2 (dropWhile is_ws r) caps) # ts)) \<and>
        (\<not> (\<forall>c \<in> set (dropWhile is_ws r). \<not> is_line_terminator c) \<longrightarrow> X j r = [])" for j r
  proof (induction r arbitrary: j)
    case Nil
    show ?case by (simp add: X_Nil)
  next
    case (Cons c cs)
    show ?case
    proof (cases "is_ws c")
      case True
      show ?thesis
      proof (cases "\<forall>c \<in> set (dropWhile is_ws cs). \<not> is_line_terminator c")
        case ok: True
        with Cons.IH[of "Suc j"] obtain ts where
          "X (Suc j) cs = MState (Suc j + length cs) [] (AList.update 2 (dropWhile is_ws cs) caps) # ts"
          by blast
        with True ok show ?thesis by (simp add: X_ws)
      next
        case bad: False
        with Cons.IH[of "Suc j"] have e: "X (Suc j) cs = []" by blast
        from bad obtain d where "d \<in> set (dropWhile is_ws cs)" "is_line_terminator d" by blast
        then have "d \<in> set (c # cs)" "is_line_terminator d"
          by (auto dest: set_dropWhileD)
        then have "\<not> (\<forall>e \<in> set (c # cs). \<not> is_line_terminator e)" by blast
        then have "ms False Z (MState j (c # cs) caps) = []" by (simp add: z)
        with True bad e show ?thesis by (simp add: X_ws)
      qed
    next
      case False
      then show ?thesis by (simp add: X_nws z)
    qed
  qed
  show "(\<forall>c \<in> set (dropWhile is_ws r). \<not> is_line_terminator c) \<Longrightarrow>
     \<exists>ts. ms False (Seq (Star (Cls False [CSpace]) True)
                 (Seq (Grp 2 (Star Dot True)) (Seq EOL Emp))) (MState j r caps) =
       MState (j + length r) [] (AList.update 2 (dropWhile is_ws r) caps) # ts"
    using main[of r j] m[of j r] unfolding Z_def by simp
  show "\<not> (\<forall>c \<in> set (dropWhile is_ws r). \<not> is_line_terminator c) \<Longrightarrow>
     ms False (Seq (Star (Cls False [CSpace]) True)
                 (Seq (Grp 2 (Star Dot True)) (Seq EOL Emp))) (MState j r caps) = []"
    using main[of r j] m[of j r] unfolding Z_def by simp
qed

lemma ch_colon [simp]: "ch CHR '':'' = 0x3A"
  by (simp add: ch_def)

lemma ms_key_Nil:
  "ms False (Seq (Grp 1 (re_plus (Cls True [csingle CHR '':'']))) Z) (MState i [] caps) = []"
  by (simp add: re_plus_def ms_not_colon del: ms.simps(3))

lemma ms_key_colon_first:
  "ms False (Seq (Grp 1 (re_plus (Cls True [csingle CHR '':'']))) Z) (MState i (0x3A # cs) caps) = []"
  by (simp add: re_plus_def ms_not_colon del: ms.simps(3))

lemma ms_key_colon:
  assumes "c \<noteq> 0x3A"
  shows "ms False (Seq (Grp 1 (re_plus (Cls True [csingle CHR '':'']))) (Seq (Lit (ch CHR '':'')) Z))
      (MState i (c # cs) caps) =
    ms False (Seq (Lit 0x3A) Z)
      (MState (Suc i + length (takeWhile (\<lambda>d. d \<noteq> 0x3A) cs)) (dropWhile (\<lambda>d. d \<noteq> 0x3A) cs)
         (AList.update 1 (c # takeWhile (\<lambda>d. d \<noteq> 0x3A) cs) caps))"
proof -
  define F where "F = (\<lambda>t. ms False (Seq (Lit 0x3A) Z)
      (MState (endIndex t) (rest t) (AList.update 1 (take (endIndex t - i) (c # cs)) (captures t))))"
  have F0: "F (MState j (e # es) caps) = []" if "e \<noteq> 0x3A" for j e es
    using that by (simp add: F_def canon_def)
  have "ms False (Seq (Grp 1 (re_plus (Cls True [csingle CHR '':'']))) (Seq (Lit (ch CHR '':'')) Z))
      (MState i (c # cs) caps) = concat (map F (star1 (\<lambda>d. d \<noteq> 0x3A) True (Suc i) cs caps))"
    using assms
    by (simp add: re_plus_def ms_not_colon ms_star_one_char[OF ms_not_colon] F_def comp_def
        del: ms.simps(3))
  also have "\<dots> = F (MState (Suc i + length (takeWhile (\<lambda>d. d \<noteq> 0x3A) cs))
                      (dropWhile (\<lambda>d. d \<noteq> 0x3A) cs) caps)"
    by (rule greedy_then_fails) (rule F0)
  also have "\<dots> = ms False (Seq (Lit 0x3A) Z)
      (MState (Suc i + length (takeWhile (\<lambda>d. d \<noteq> 0x3A) cs)) (dropWhile (\<lambda>d. d \<noteq> 0x3A) cs)
         (AList.update 1 (c # takeWhile (\<lambda>d. d \<noteq> 0x3A) cs) caps))"
    by (simp add: F_def takeWhile_eq_take[symmetric])
  finally show ?thesis .
qed

lemma ms_field_line:
  "field_line line = None \<Longrightarrow> ms False re_field_line (MState 0 line []) = []"
  "field_line line = Some (f, v) \<Longrightarrow>
     \<exists>t ts. ms False re_field_line (MState 0 line []) = t # ts \<and>
       map_of (captures t) 1 = Some f \<and> map_of (captures t) 2 = Some v"
proof -
  define Z where "Z = Seq (Star (Cls False [CSpace]) True)
                        (Seq (Grp 2 (Star Dot True)) (Seq EOL Emp))"
  define K where "K = Seq (Grp 1 (re_plus (Cls True [csingle CHR '':'']))) (Seq (Lit (ch CHR '':'')) Z)"
  have r: "ms False re_field_line (MState 0 line []) = ms False K (MState 0 line [])"
    by (simp add: re_field_line_def K_def Z_def)
  have main: "(field_line line = None \<longrightarrow> ms False K (MState 0 line []) = []) \<and>
     (\<forall>f v. field_line line = Some (f, v) \<longrightarrow>
        (\<exists>t ts. ms False K (MState 0 line []) = t # ts \<and>
           map_of (captures t) 1 = Some f \<and> map_of (captures t) 2 = Some v))"
  proof (cases line)
    case Nil
    have "ms False K (MState 0 [] []) = []" unfolding K_def by (rule ms_key_Nil)
    with Nil show ?thesis by (simp add: field_line_def)
  next
    case (Cons c cs)
    show ?thesis
    proof (cases "c = 0x3A")
      case True
      have "ms False K (MState 0 (0x3A # cs) []) = []" unfolding K_def by (rule ms_key_colon_first)
      with Cons True show ?thesis by (simp add: field_line_def)
    next
      case False
      define n where "n = length (takeWhile (\<lambda>d. d \<noteq> 0x3A) cs)"
      define k where "k = c # takeWhile (\<lambda>d. d \<noteq> 0x3A) cs"
      have m: "ms False K (MState 0 line []) =
          ms False (Seq (Lit 0x3A) Z)
            (MState (Suc 0 + n) (dropWhile (\<lambda>d. d \<noteq> 0x3A) cs) (AList.update 1 k []))"
        unfolding K_def Cons n_def k_def by (rule ms_key_colon[OF False])
      show ?thesis
      proof (cases "dropWhile (\<lambda>d. d \<noteq> 0x3A) cs")
        case Nil
        with Cons False show ?thesis
          unfolding m by (simp add: field_line_def del: dropWhile_eq_Nil_conv)
      next
        case dw: (Cons d rr)
        then have d: "d = 0x3A" using hd_dropWhile[of "\<lambda>d. d \<noteq> 0x3A" cs] by simp
        have m2: "ms False K (MState 0 line []) =
            ms False Z (MState (Suc (Suc 0 + n)) rr (AList.update 1 k []))"
          unfolding m dw d by (simp add: canon_def)
        have fl: "field_line line =
            (if \<exists>e \<in> set (dropWhile is_ws rr). is_line_terminator e then None
             else Some (k, dropWhile is_ws rr))"
          using Cons False dw by (simp add: field_line_def k_def Let_def)
        show ?thesis
        proof (cases "\<forall>e \<in> set (dropWhile is_ws rr). \<not> is_line_terminator e")
          case True
          from ms_ws_value_end(1)[OF True, of "Suc (Suc 0 + n)" "AList.update 1 k []"]
          obtain ts where "ms False Z (MState (Suc (Suc 0 + n)) rr (AList.update 1 k [])) =
              MState (Suc (Suc 0 + n) + length rr) []
                (AList.update 2 (dropWhile is_ws rr) (AList.update 1 k [])) # ts"
            unfolding Z_def by blast
          with True fl show ?thesis unfolding m2 by simp
        next
          case False
          from ms_ws_value_end(2)[OF False, of "Suc (Suc 0 + n)" "AList.update 1 k []"]
          have "ms False Z (MState (Suc (Suc 0 + n)) rr (AList.update 1 k [])) = []"
            unfolding Z_def .
          with False fl show ?thesis unfolding m2 by simp
        qed
      qed
    qed
  qed
  show "field_line line = None \<Longrightarrow> ms False re_field_line (MState 0 line []) = []"
    using main unfolding r by blast
  show "field_line line = Some (f, v) \<Longrightarrow>
     \<exists>t ts. ms False re_field_line (MState 0 line []) = t # ts \<and>
       map_of (captures t) 1 = Some f \<and> map_of (captures t) 2 = Some v"
    using main unfolding r by blast
qed

lemma ms_field_line_later: "0 < i \<Longrightarrow> ms False re_field_line (MState i w caps) = []"
  by (simp add: re_field_line_def)

lemma exec_from_field_line_later: "0 < i \<Longrightarrow> exec_from False re_field_line i s = None"
  by (induction s arbitrary: i) (simp_all add: ms_field_line_later)

lemma str_match_field_line:
  "field_line line = None \<Longrightarrow> str_match False re_field_line line = None"
  "field_line line = Some (f, v) \<Longrightarrow>
     \<exists>m caps. str_match False re_field_line line = Some (m, caps) \<and>
       map_of caps 1 = Some f \<and> map_of caps 2 = Some v"
proof -
  show "field_line line = None \<Longrightarrow> str_match False re_field_line line = None"
    using ms_field_line(1)[of line]
    by (cases line) (simp_all add: str_match_def exec_from_field_line_later)
  show "field_line line = Some (f, v) \<Longrightarrow>
     \<exists>m caps. str_match False re_field_line line = Some (m, caps) \<and>
       map_of caps 1 = Some f \<and> map_of caps 2 = Some v"
    using ms_field_line(2)[of line f v]
    by (cases line) (auto simp add: str_match_def)
qed

lemma catom_mem_range: "catom_mem False (CRange lo hi) d = (lo \<le> d \<and> d \<le> hi)"
  by (auto simp: canon_def)

lemma ms_kebab:
  "ms False re_kebab (MState i w caps) =
     (case w of
        c # d # ds \<Rightarrow>
          if c = 0x2D \<and> 0x61 \<le> d \<and> d \<le> 0x7A
          then [MState (Suc (Suc i)) ds (AList.update 1 [d] caps)] else []
      | _ \<Rightarrow> [])"
proof (cases w)
  case Nil
  then show ?thesis by (simp add: re_kebab_def)
next
  case (Cons c cs)
  then show ?thesis
    by (cases cs) (auto simp: re_kebab_def crange_def ch_def canon_def catom_mem_range
        simp del: catom_mem.simps(1))
qed

lemma replace_all_skip:
  assumes "ms ic r (MState i (c # s) []) = []"
  shows "replace_all ic r f i (c # s) = c # replace_all ic r f (Suc i) s"
proof (cases "exec_from ic r (Suc i) s")
  case None
  with assms show ?thesis
    by (simp add: replace_all.simps[of ic r f i "c # s"] replace_all.simps[of ic r f "Suc i" s])
next
  case (Some kt)
  obtain k t where kt: "kt = (k, t)" by (cases kt)
  from exec_from_suffix[OF Some[unfolded kt]] have "Suc i \<le> k" by simp
  then have "k - i = Suc (k - Suc i)" by arith
  then have "take (k - i) (c # s) = c # take (k - Suc i) s" by simp
  with assms Some kt show ?thesis
    by (simp add: replace_all.simps[of ic r f i "c # s"] replace_all.simps[of ic r f "Suc i" s])
qed

lemma replace_all_Nil:
  assumes "ms ic r (MState i [] []) = []"
  shows "replace_all ic r f i [] = []"
  using assms by (simp add: replace_all.simps[of ic r f i "[]"])

lemma replace_all_hit:
  assumes "ms ic r (MState i (c # s) []) = t # ts" "endIndex t \<noteq> i"
  shows "replace_all ic r f i (c # s) = f (captures t) @ replace_all ic r f (endIndex t) (rest t)"
  using assms by (simp add: replace_all.simps[of ic r f i "c # s"])

lemma kebab_replace_Nil: "replace_all False re_kebab f i [] = []"
  by (simp add: replace_all_Nil ms_kebab)

lemma kebab_replace_one: "replace_all False re_kebab f i [v] = [v]"
proof -
  have m: "ms False re_kebab (MState i [v] []) = []" by (simp add: ms_kebab)
  show ?thesis by (simp add: replace_all_skip[OF m] replace_all_Nil ms_kebab)
qed

lemma kebab_replace:
  "replace_all False re_kebab
     (\<lambda>caps. case map_of caps 1 of Some letter \<Rightarrow> toUpperCase_ascii letter | None \<Rightarrow> []) i s =
   camel_spec s"
proof (induction s arbitrary: i rule: camel_spec.induct)
  case (1 c d cs)
  show ?case
  proof (cases "c = 0x2D \<and> 0x61 \<le> d \<and> d \<le> 0x7A")
    case True
    then have m: "ms False re_kebab (MState i (c # d # cs) []) =
        [MState (Suc (Suc i)) cs (AList.update 1 [d] [])]"
      by (simp add: ms_kebab)
    from True have u: "toUpperCase_ascii [d] = [d - 0x20]"
      by (simp add: toUpperCase_ascii_def ascii_upper_def)
    have "replace_all False re_kebab
        (\<lambda>caps. case map_of caps 1 of Some letter \<Rightarrow> toUpperCase_ascii letter | None \<Rightarrow> []) i
        (c # d # cs) =
      (case map_of (AList.update 1 [d] []) 1 of Some letter \<Rightarrow> toUpperCase_ascii letter | None \<Rightarrow> []) @
      replace_all False re_kebab
        (\<lambda>caps. case map_of caps 1 of Some letter \<Rightarrow> toUpperCase_ascii letter | None \<Rightarrow> [])
        (Suc (Suc i)) cs"
      using replace_all_hit[OF m, of "\<lambda>caps. case map_of caps 1 of Some letter \<Rightarrow> toUpperCase_ascii letter | None \<Rightarrow> []"]
      by simp
    then show ?thesis
      using True "1.IH"(1)[OF True, of "Suc (Suc i)"] u
      by simp
  next
    case False
    then have m: "ms False re_kebab (MState i (c # d # cs) []) = []"
      by (auto simp add: ms_kebab)
    from replace_all_skip[OF m] False "1.IH"(2)[OF False, of "Suc i"]
    show ?thesis by auto
  qed
qed (simp_all add: kebab_replace_Nil kebab_replace_one)

lemma kebab_to_camel_spec: "kebab_to_camel s = camel_spec s"
  unfolding kebab_to_camel_def by (rule kebab_replace)

lemma parse_lines_eq:
  "parse_lines L lines result = Some (foldl (add_entry L) result lines)"
proof (induction lines arbitrary: result)
  case Nil
  show ?case by simp
next
  case (Cons line lines)
  show ?case
  proof (cases "trim line = [] \<or> startsWith (trim line) (str ''#'')")
    case True
    then show ?thesis by (simp add: Cons.IH add_entry_def line_entry_def)
  next
    case False
    show ?thesis
    proof (cases "field_line line")
      case None
      with False str_match_field_line(1)[OF None] show ?thesis
        by (simp add: Cons.IH add_entry_def line_entry_def)
    next
      case (Some fv)
      obtain f v where fv: "fv = (f, v)" by (cases fv)
      from str_match_field_line(2)[OF Some[unfolded fv]] obtain m caps where
        "str_match False re_field_line line = Some (m, caps)"
        "map_of caps 1 = Some f" "map_of caps 2 = Some v" by blast
      with False Some fv show ?thesis
        by (simp add: Cons.IH add_entry_def line_entry_def kebab_to_camel_spec)
    qed
  qed
qed

lemma parseSecurityTxt_eq:
  "parseSecurityTxt L content = Some (foldl (add_entry L) [] (js_split 0x0A content))"
  by (simp add: parseSecurityTxt_def parse_lines_eq)

lemma parseSecurityTxt_caught_eq:
  "parseSecurityTxt_caught L content = foldl (add_entry L) [] (js_split 0x0A content)"
  by (simp add: parseSecurityTxt_caught_def parseSecurityTxt_eq)

section \<open>Texts with a standard block\<close>

lemma lit_prefix_append: "lit_prefix ic s u \<Longrightarrow> lit_prefix ic s (u @ v)"
  by (induction ic s u rule: lit_prefix.induct) (simp_all add: lit_prefix.simps)

lemma lit_prefix_Cons:
  "lit_prefix ic (c # cs) w = (\<exists>d ds. w = d # ds \<and> canon ic d = canon ic (ch c) \<and> lit_prefix ic cs ds)"
  by (cases w) (simp_all add: lit_prefix.simps)

lemma scan_hit: "f i s = Some a \<Longrightarrow> scan f i s = Some a"
  by (cases s) simp_all

lemma scan_skip:
  "(\<And>k. k < length pre \<Longrightarrow> f (i + k) (drop k pre @ w) = None) \<Longrightarrow>
     scan f i (pre @ w) = scan f (i + length pre) w"
proof (induction pre arbitrary: i)
  case Nil
  show ?case by simp
next
  case (Cons c cs)
  from Cons.prems[of 0] have 0: "f i (c # cs @ w) = None" by simp
  have "f (Suc i + k) (drop k cs @ w) = None" if "k < length cs" for k
    using Cons.prems[of "Suc k"] that by simp
  from Cons.IH[of "Suc i", OF this] 0 show ?case by simp
qed

lemma after_hash_None: "c \<noteq> 0x23 \<Longrightarrow> d \<noteq> 0x23 \<Longrightarrow> after_hash k (c # d # ds) = None"
  by (simp add: after_hash_def)

lemma header_rest_tail:
  assumes "lit_prefix True ''security.txt'' ds" "length ds = length ''security.txt''"
  shows "header_rest j (0x0A # 0x23 # ds @ 0x0A # rs) = Some rs"
    and "header_rest j (0x0A # 0x23 # 0x20 # ds @ 0x0A # rs) = Some rs"
    and "header_rest 0 (0x23 # ds @ 0x0A # rs) = Some rs"
    and "header_rest 0 (0x23 # 0x20 # ds @ 0x0A # rs) = Some rs"
proof -
  have sp: "\<not> lit_prefix True ''security.txt'' (0x20 # es)" for es
    by (simp add: lit_prefix.simps ch_def canon_def ascii_upper_def)
  from assms(1) sp have nsp: "ds \<noteq> []" "hd ds \<noteq> 0x20"
    by (cases ds; auto simp: lit_prefix.simps)+
  then have sk: "skip_space (ds @ 0x0A # rs) = ds @ 0x0A # rs"
    by (cases ds) (simp_all add: skip_space_def)
  have sk2: "skip_space (0x20 # ds @ 0x0A # rs) = ds @ 0x0A # rs"
    by (simp add: skip_space_def)
  have lp: "lit_prefix True ''security.txt'' (ds @ 0x0A # rs)"
    using assms(1) by (rule lit_prefix_append)
  have dr: "drop (length ''security.txt'') (ds @ 0x0A # rs) = 0x0A # rs"
    using assms(2) by simp
  have fin: "(if lit_prefix True ''security.txt'' (ds @ 0x0A # rs)
          then (case drop (length ''security.txt'') (ds @ 0x0A # rs) of
                  [] \<Rightarrow> Some []
                | c # cs \<Rightarrow> if c = 0x0A then Some cs else None)
          else None) = Some rs"
    unfolding dr using lp by simp
  have ah: "after_hash j (0x0A # 0x23 # ds @ 0x0A # rs) = Some (ds @ 0x0A # rs)"
    "after_hash j (0x0A # 0x23 # 0x20 # ds @ 0x0A # rs) = Some (0x20 # ds @ 0x0A # rs)"
    "after_hash 0 (0x23 # ds @ 0x0A # rs) = Some (ds @ 0x0A # rs)"
    "after_hash 0 (0x23 # 0x20 # ds @ 0x0A # rs) = Some (0x20 # ds @ 0x0A # rs)"
    by (simp_all add: after_hash_def)
  show "header_rest j (0x0A # 0x23 # ds @ 0x0A # rs) = Some rs"
    unfolding header_rest_def ah by (simp only: option.case sk fin)
  show "header_rest j (0x0A # 0x23 # 0x20 # ds @ 0x0A # rs) = Some rs"
    unfolding header_rest_def ah by (simp only: option.case sk2 fin)
  show "header_rest 0 (0x23 # ds @ 0x0A # rs) = Some rs"
    unfolding header_rest_def ah by (simp only: option.case sk fin)
  show "header_rest 0 (0x23 # 0x20 # ds @ 0x0A # rs) = Some rs"
    unfolding header_rest_def ah by (simp only: option.case sk2 fin)
qed

lemma header_rest_header:
  assumes "header_text h"
  shows "header_rest j (0x0A # h @ 0x0A # rs) = Some rs" and "header_rest 0 (h @ 0x0A # rs) = Some rs"
proof -
  from assms consider
    (a) ds where "h = 0x23 # ds" "lit_prefix True ''security.txt'' ds"
      "length ds = length ''security.txt''"
  | (b) ds where "h = 0x23 # 0x20 # ds" "lit_prefix True ''security.txt'' ds"
      "length ds = length ''security.txt''"
    unfolding header_text_def lit_eq_def
    by (auto simp: lit_prefix_Cons[of True "CHR ''#''"] lit_prefix_Cons[of True "CHR '' ''"])
  then show "header_rest j (0x0A # h @ 0x0A # rs) = Some rs"
    by cases (simp_all only: header_rest_tail append_Cons)
  from assms consider
    (a) ds where "h = 0x23 # ds" "lit_prefix True ''security.txt'' ds"
      "length ds = length ''security.txt''"
  | (b) ds where "h = 0x23 # 0x20 # ds" "lit_prefix True ''security.txt'' ds"
      "length ds = length ''security.txt''"
    unfolding header_text_def lit_eq_def
    by (auto simp: lit_prefix_Cons[of True "CHR ''#''"] lit_prefix_Cons[of True "CHR '' ''"])
  then show "header_rest 0 (h @ 0x0A # rs) = Some rs"
    by cases (simp_all only: header_rest_tail append_Cons)
qed

lemma std_capture_shape:
  assumes pre: "0x23 \<notin> set pre"
    and start: "(start = [] \<and> pre = []) \<or> start = [0x0A]"
    and h: "header_text h"
  shows "std_capture (pre @ start @ h @ 0x0A # rs) = Some (take (block_len rs) rs)"
proof -
  define f where "f = (\<lambda>i w. map_option (\<lambda>v. take (block_len v) v) (header_rest i w))"
  from start show ?thesis
  proof
    assume "start = [] \<and> pre = []"
    then show ?thesis
      using header_rest_header(2)[OF h, of rs]
      by (simp add: std_capture_def scan_hit)
  next
    assume s: "start = [0x0A]"
    have "f (0 + k) (drop k pre @ (0x0A # h @ 0x0A # rs)) = None" if "k < length pre" for k
    proof -
      from that obtain c cs where c: "drop k pre = c # cs"
        by (cases "drop k pre") auto
      then have "c \<in> set pre" "set cs \<subseteq> set pre"
        using set_drop_subset[of k pre] by auto
      with pre have c35: "c \<noteq> 0x23" "0x23 \<notin> set cs" by auto
      have "after_hash k (c # cs @ 0x0A # h @ 0x0A # rs) = None"
      proof (cases cs)
        case Nil
        then show ?thesis using c35 by (simp add: after_hash_def)
      next
        case (Cons d ds)
        with c35 show ?thesis by (simp add: after_hash_def)
      qed
      with c show ?thesis by (simp add: f_def header_rest_def)
    qed
    from scan_skip[of pre f 0 "0x0A # h @ 0x0A # rs", OF this]
    have "scan f 0 (pre @ 0x0A # h @ 0x0A # rs) = scan f (length pre) (0x0A # h @ 0x0A # rs)"
      by simp
    also have "\<dots> = Some (take (block_len rs) rs)"
      using header_rest_header(1)[OF h, of "length pre" rs] by (simp add: f_def)
    finally show ?thesis using s by (simp add: std_capture_def f_def)
  qed
qed

lemma lit_prefix_before_nl:
  assumes "lit_prefix True s (v @ z)" "v \<noteq> []" "last v = 0x0A" "\<forall>c \<in> set s. ch c \<noteq> 0x0A"
  shows "length s < length v \<and> lit_prefix True s v"
  using assms
proof (induction s arbitrary: v)
  case Nil
  then show ?case by (simp add: lit_prefix.simps)
next
  case (Cons c cs)
  from Cons.prems(2) obtain d ds where v: "v = d # ds" by (cases v) auto
  from Cons.prems(1) v have d: "canon True d = canon True (ch c)" and r: "lit_prefix True cs (ds @ z)"
    by (simp_all add: lit_prefix.simps)
  from Cons.prems(4) have "ch c \<noteq> 0x0A" by simp
  with d have "d \<noteq> 0x0A" by (metis canon_nl)
  with Cons.prems(3) v have ds: "ds \<noteq> []" "last ds = 0x0A" by (auto split: if_splits)
  from Cons.IH[OF r ds] Cons.prems(4) have "length cs < length ds \<and> lit_prefix True cs ds" by simp
  with v d show ?case by (simp add: lit_prefix.simps)
qed

lemma header_rest_cut:
  assumes "header_rest i (u @ 0x0A # z) \<noteq> None" "u \<noteq> []"
  shows "header_rest i (u @ [0x0A]) \<noteq> None"
proof -
  from assms(1) obtain w1 where a: "after_hash i (u @ 0x0A # z) = Some w1"
    by (auto simp: header_rest_def split: option.splits)
  from assms(2) obtain c cs where u: "u = c # cs" by (cases u) auto
  obtain d ds where ds: "cs @ [0x0A] = d # ds" by (cases cs) auto
  then have ds': "cs @ 0x0A # z = d # ds @ z" by (metis append_Cons append_assoc append_Nil)
  from a obtain w1' where a': "after_hash i (u @ [0x0A]) = Some w1'" and w1: "w1 = w1' @ z"
    unfolding u by (auto simp: after_hash_def ds ds' split: if_splits)
  have ne: "w1' \<noteq> []" "last w1' = 0x0A"
  proof -
    have "w1' = cs @ [0x0A] \<or> w1' = ds"
      using a' unfolding u by (auto simp: after_hash_def ds split: if_splits)
    moreover have "ds \<noteq> []" "last ds = 0x0A" if "d = 0x23"
      using ds that by (cases cs; auto)+
    moreover have "w1' = ds \<Longrightarrow> d = 0x23"
      using a' unfolding u by (auto simp: after_hash_def ds split: if_splits)
    ultimately show "w1' \<noteq> []" "last w1' = 0x0A" by auto
  qed
  define v' where "v' = skip_space w1'"
  have v': "v' \<noteq> []" "last v' = 0x0A" "skip_space (w1' @ z) = v' @ z"
    using ne unfolding v'_def by (cases w1'; cases "tl w1'"; auto simp: skip_space_def)+
  from assms(1) a w1 v'(3) have lp: "lit_prefix True ''security.txt'' (v' @ z)"
    and nx: "drop (length ''security.txt'') (v' @ z) = [] \<or>
             hd (drop (length ''security.txt'') (v' @ z)) = 0x0A"
    by (auto simp: header_rest_def split: if_splits list.splits)
  have "\<forall>c \<in> set ''security.txt''. ch c \<noteq> 0x0A" by (simp add: ch_def)
  from lit_prefix_before_nl[OF lp v'(1,2) this]
  have l: "length ''security.txt'' < length v'" and lp': "lit_prefix True ''security.txt'' v'" by simp_all
  from l obtain e es where e: "drop (length ''security.txt'') v' = e # es"
    by (cases "drop (length ''security.txt'') v'") auto
  with l nx have "e = 0x0A" by (simp del: list.size)
  with a' lp' e show ?thesis
    unfolding header_rest_def by (simp add: v'_def del: list.size)
qed

lemma std_capture_first:
  assumes nh: "\<not> has_header (pre @ start)"
    and start: "(start = [] \<and> pre = []) \<or> start = [0x0A]"
    and h: "header_text h"
  shows "std_capture (pre @ start @ h @ 0x0A # rs) = Some (take (block_len rs) rs)"
proof -
  define f where "f = (\<lambda>i w. map_option (\<lambda>v. take (block_len v) v) (header_rest i w))"
  from start show ?thesis
  proof
    assume "start = [] \<and> pre = []"
    then show ?thesis
      using header_rest_header(2)[OF h, of rs]
      by (simp add: std_capture_def scan_hit)
  next
    assume s: "start = [0x0A]"
    have "f (0 + k) (drop k pre @ (0x0A # h @ 0x0A # rs)) = None" if "k < length pre" for k
    proof (rule ccontr)
      assume "f (0 + k) (drop k pre @ (0x0A # h @ 0x0A # rs)) \<noteq> None"
      then have "header_rest k (drop k pre @ 0x0A # h @ 0x0A # rs) \<noteq> None"
        by (simp add: f_def)
      moreover from that have "drop k pre \<noteq> []" by simp
      ultimately have "header_rest k (drop k pre @ [0x0A]) \<noteq> None" by (rule header_rest_cut)
      with that have "\<exists>j \<le> length (pre @ [0x0A]). header_rest (0 + j) (drop j (pre @ [0x0A])) \<noteq> None"
        by (intro exI[of _ k]) simp
      then have "std_capture (pre @ [0x0A]) \<noteq> None"
        unfolding std_capture_def scan_Some_iff by simp
      with nh s show False by (simp add: has_header_iff)
    qed
    from scan_skip[of pre f 0 "0x0A # h @ 0x0A # rs", OF this]
    have "scan f 0 (pre @ 0x0A # h @ 0x0A # rs) = scan f (length pre) (0x0A # h @ 0x0A # rs)"
      by simp
    also have "\<dots> = Some (take (block_len rs) rs)"
      using header_rest_header(1)[OF h, of "length pre" rs] by (simp add: f_def)
    finally show ?thesis using s by (simp add: std_capture_def f_def)
  qed
qed

lemma no_header_Nil: "\<not> has_header []"
  by (simp add: has_header_iff std_eval)

lemma no_header_nl: "\<not> has_header [0x0A]"
  by (simp add: has_header_iff std_eval)

lemma block_end_not_nl: "c \<noteq> 0x0A \<Longrightarrow> \<not> block_end (c # w)"
  by (cases w) simp_all

lemma block_len_append: "0x0A \<notin> set u \<Longrightarrow> block_len (u @ v) = length u + block_len v"
  by (induction u) (auto simp: block_end_not_nl)

lemma block_len_sep:
  "l \<noteq> [] \<Longrightarrow> hd l \<noteq> 0x0A \<Longrightarrow> hd l \<noteq> 0x23 \<Longrightarrow> block_len (0x0A # l @ w) = Suc (block_len (l @ w))"
  by (cases l) simp_all

lemma block_len_join:
  assumes "\<And>l. l \<in> set ls \<Longrightarrow> l \<noteq> [] \<and> 0x0A \<notin> set l \<and> hd l \<noteq> 0x23"
  shows "block_len (join_lines ls @ w) = length (join_lines ls) + block_len w"
  using assms
proof (induction ls rule: join_lines.induct)
  case 1
  show ?case by simp
next
  case (2 l)
  then show ?case by (simp add: block_len_append)
next
  case (3 l l' ls)
  from "3.prems"[of l'] have l': "l' \<noteq> []" "hd l' \<noteq> 0x0A" "hd l' \<noteq> 0x23"
    by (cases l'; auto)+
  from "3.prems"[of l] have l: "0x0A \<notin> set l" by simp
  have j: "join_lines (l' # ls) \<noteq> [] \<and> hd (join_lines (l' # ls)) = hd l'"
    using l'(1) by (cases ls) simp_all
  have "block_len (0x0A # join_lines (l' # ls) @ w) = Suc (block_len (join_lines (l' # ls) @ w))"
    using j l' by (intro block_len_sep) simp_all
  moreover have "block_len (join_lines (l' # ls) @ w) = length (join_lines (l' # ls)) + block_len w"
    using "3.prems" by (intro "3.IH") simp
  ultimately show ?case using l by (simp add: block_len_append)
qed

lemma js_split_no_sep: "sep \<notin> set l \<Longrightarrow> js_split sep l = [l]"
  by (induction l) auto

lemma js_split_append: "sep \<notin> set l \<Longrightarrow> js_split sep (l @ sep # w) = l # js_split sep w"
  by (induction l) auto

lemma js_split_join:
  "ls \<noteq> [] \<Longrightarrow> (\<And>l. l \<in> set ls \<Longrightarrow> 0x0A \<notin> set l) \<Longrightarrow> js_split 0x0A (join_lines ls) = ls"
proof (induction ls rule: join_lines.induct)
  case 1
  then show ?case by simp
next
  case (2 l)
  then show ?case by (simp add: js_split_no_sep)
next
  case (3 l l' ls)
  then show ?case by (simp add: js_split_append)
qed

lemma js_split_ne: "js_split sep u \<noteq> []"
  by (induction u) (auto split: list.splits)

lemma js_split_snoc_sep: "js_split sep (u @ [sep]) = js_split sep u @ [[]]"
  by (induction u) (auto simp: js_split_ne split: list.splits)

lemma dropWhile_snoc_keep: "\<not> P a \<Longrightarrow> dropWhile P (xs @ [a]) = dropWhile P xs @ [a]"
  by (induction xs) auto

lemma trim_Cons: "\<not> is_ws a \<Longrightarrow> trim (a # as) = a # rev (dropWhile is_ws (rev as))"
  by (simp add: trim_def dropWhile_snoc_keep)

lemma dropWhile_rev_id: "as \<noteq> [] \<Longrightarrow> \<not> P (last as) \<Longrightarrow> dropWhile P (rev as) = rev as"
  by (cases as rule: rev_cases) auto

lemma trim_id:
  assumes "v = [] \<or> (\<not> is_ws (hd v) \<and> \<not> is_ws (last v))"
  shows "trim v = v"
proof (cases v)
  case Nil
  then show ?thesis by (simp add: trim_def)
next
  case (Cons a as)
  with assms have a: "\<not> is_ws a" and l: "\<not> is_ws (last (a # as))" by auto
  show ?thesis
  proof (cases "as = []")
    case True
    with a Cons show ?thesis by (simp add: trim_Cons)
  next
    case False
    with l have "dropWhile is_ws (rev as) = rev as" by (simp add: dropWhile_rev_id)
    with a Cons show ?thesis by (simp add: trim_Cons)
  qed
qed

lemma is_ws_space: "is_ws 0x20"
  by (simp add: is_ws_def)

lemma nl_line_terminator: "is_line_terminator 0x0A"
  by (simp add: is_line_terminator_def)

lemma field_line_render:
  assumes "valid_key k" "valid_value v"
  shows "field_line (render (k, v)) = Some (k, v)"
proof -
  from assms(1) have k: "k \<noteq> []" "0x3A \<notin> set k" by (simp_all add: valid_key_def)
  have tw: "takeWhile (\<lambda>c. c \<noteq> 0x3A) (k @ 0x3A # 0x20 # v) = k"
    using k(2) by (induction k) auto
  have dw: "dropWhile (\<lambda>c. c \<noteq> 0x3A) (k @ 0x3A # 0x20 # v) = 0x3A # 0x20 # v"
    using k(2) by (induction k) auto
  from assms(2) have v: "dropWhile is_ws v = v" "\<not> (\<exists>c \<in> set v. is_line_terminator c)"
    by (cases v; auto simp: valid_value_def)+
  show ?thesis
    unfolding field_line_def render_def using k(1) v
    by (simp add: tw dw Let_def is_ws_space)
qed

lemma line_entry_render:
  assumes "valid_key k" "valid_value v"
  shows "line_entry L (render (k, v)) = Some (camel_spec (toLowerCase L k), v)"
proof -
  from assms(1) obtain a as where k: "k = a # as" "\<not> is_ws a" "a \<noteq> 0x23"
    by (cases k) (auto simp: valid_key_def)
  have t: "trim (render (k, v)) = a # rev (dropWhile is_ws (rev (as @ [0x3A, 0x20] @ v)))"
    unfolding render_def k(1) using k(2) by (simp add: trim_Cons)
  have tk: "trim k = k" using assms(1) by (intro trim_id) (simp add: valid_key_def)
  have tv: "trim v = v" using assms(2) by (intro trim_id) (simp add: valid_value_def)
  show ?thesis
    unfolding line_entry_def field_line_render[OF assms] t
    using k(3) by (simp add: startsWith_def str_def tk tv)
qed

lemma foldl_add_entry_render:
  "(\<And>kv. kv \<in> set flds \<Longrightarrow> valid_key (fst kv) \<and> valid_value (snd kv)) \<Longrightarrow>
     foldl (add_entry L) acc (map render flds) = foldl (entry_of L) acc flds"
proof (induction flds arbitrary: acc)
  case Nil
  show ?case by simp
next
  case (Cons kv flds)
  obtain k v where kv: "kv = (k, v)" by (cases kv)
  from Cons.prems[of kv] kv have "valid_key k" "valid_value v" by simp_all
  then have "add_entry L acc (render kv) = entry_of L acc kv"
    unfolding kv by (simp add: add_entry_def line_entry_render entry_of_def)
  with Cons show ?case by simp
qed

lemma add_entry_empty: "add_entry L acc [] = acc"
  by (simp add: add_entry_def line_entry_def trim_def)

lemma render_line:
  assumes "valid_key k" "valid_value v"
  shows "render (k, v) \<noteq> []" "0x0A \<notin> set (render (k, v))" "hd (render (k, v)) \<noteq> 0x23"
proof -
  from assms(1) obtain a as where k: "k = a # as" "a \<noteq> 0x23" "0x0A \<notin> set k"
    by (cases k) (auto simp: valid_key_def)
  from assms(2) have "0x0A \<notin> set v"
    using nl_line_terminator by (auto simp: valid_value_def)
  with k show "render (k, v) \<noteq> []" "0x0A \<notin> set (render (k, v))" "hd (render (k, v)) \<noteq> 0x23"
    by (simp_all add: render_def)
qed

lemma block_len_block_end: "block_end w \<Longrightarrow> block_len w = 0"
  by (cases w) simp_all

lemma parse_block:
  assumes ok: "\<And>kv. kv \<in> set flds \<Longrightarrow> valid_key (fst kv) \<and> valid_value (snd kv)"
    and ne: "flds \<noteq> []"
    and e: "block_end w \<or> w = [0x0A]"
  shows "take (block_len (join_lines (map render flds) @ w)) (join_lines (map render flds) @ w) \<noteq> []"
    and "parseSecurityTxt_caught L
           (take (block_len (join_lines (map render flds) @ w)) (join_lines (map render flds) @ w)) =
         foldl (entry_of L) [] flds"
proof -
  let ?ls = "map render flds"
  have ls: "l \<noteq> [] \<and> 0x0A \<notin> set l \<and> hd l \<noteq> 0x23" if "l \<in> set ?ls" for l
  proof -
    from that obtain kv where "kv \<in> set flds" "l = render kv" by auto
    with ok[of kv] render_line[of "fst kv" "snd kv"] show ?thesis by simp
  qed
  have bl: "block_len (join_lines ?ls @ w) = length (join_lines ?ls) + block_len w"
    using ls by (rule block_len_join)
  have sp: "js_split 0x0A (join_lines ?ls) = ?ls"
    using ne ls by (intro js_split_join) auto
  from ne obtain kv fs1 where f1: "flds = kv # fs1" by (cases flds) auto
  from f1 have jne: "join_lines ?ls \<noteq> []"
    using ls[of "render kv"] by (cases fs1) simp_all
  from e show "take (block_len (join_lines ?ls @ w)) (join_lines ?ls @ w) \<noteq> []"
    unfolding bl using jne by auto
  from e show "parseSecurityTxt_caught L (take (block_len (join_lines ?ls @ w)) (join_lines ?ls @ w)) =
         foldl (entry_of L) [] flds"
  proof
    assume "block_end w"
    then have "take (block_len (join_lines ?ls @ w)) (join_lines ?ls @ w) = join_lines ?ls"
      unfolding bl by (simp add: block_len_block_end)
    then show ?thesis
      by (simp add: parseSecurityTxt_caught_eq sp foldl_add_entry_render[OF ok])
  next
    assume "w = [0x0A]"
    then have "take (block_len (join_lines ?ls @ w)) (join_lines ?ls @ w) = join_lines ?ls @ [0x0A]"
      unfolding bl by simp
    then show ?thesis
      by (simp add: parseSecurityTxt_caught_eq js_split_snoc_sep sp foldl_add_entry_render[OF ok]
          add_entry_empty)
  qed
qed

lemma from_pattern1_capture:
  "std_capture s = Some c \<Longrightarrow> c \<noteq> [] \<Longrightarrow> from_pattern1 L s = parseSecurityTxt_caught L c"
  by (cases c) (simp_all add: from_pattern1_def truthy_standard)

lemma findAndParse_standard_block:
  assumes "TextDecoder_decode bs = pre @ start @ h @ 0x0A # join_lines (map render flds) @ w"
    and "\<not> has_header (pre @ start)"
    and "(start = [] \<and> pre = []) \<or> start = [0x0A]"
    and "header_text h"
    and "flds \<noteq> []"
    and "\<forall>kv \<in> set flds. valid_key (fst kv) \<and> valid_value (snd kv)"
    and "block_end w \<or> w = [0x0A]"
  shows "findAndParseSecurityTxt L bs = foldl (entry_of L) [] flds"
proof -
  let ?rs = "join_lines (map render flds) @ w"
  have c: "std_capture (TextDecoder_decode bs) = Some (take (block_len ?rs) ?rs)"
    unfolding assms(1) using assms(2,3,4) by (rule std_capture_first)
  have ok: "\<And>kv. kv \<in> set flds \<Longrightarrow> valid_key (fst kv) \<and> valid_value (snd kv)"
    using assms(6) by blast
  show ?thesis
    unfolding findAndParseSecurityTxt_def Let_def
    using from_pattern1_capture[OF c parse_block(1)[OF ok assms(5,7)]]
      parse_block(2)[OF ok assms(5,7)] by simp
qed

section \<open>Decoding ASCII bytes\<close>

lemma unat_of_char: "unat (of_char c :: byte) = of_char c"
proof -
  have "unat (of_char c :: byte) = unat (of_nat (of_char c) :: byte)"
    by (simp add: of_nat_of_char)
  also have "\<dots> = of_char c mod 256"
    by (simp add: unat_of_nat)
  finally show ?thesis by simp
qed

lemma utf8_decode_ascii:
  "\<forall>b \<in> set bs. unat b < 0x80 \<Longrightarrow> utf8_decode 0 0 0 0x80 0xBF bs = map unat bs"
  by (induction bs) simp_all

lemma TextDecoder_decode_ascii:
  assumes "\<forall>b \<in> set bs. unat b < 0x80"
  shows "TextDecoder_decode bs = map unat bs"
proof -
  have c: "concat (map utf16_units (map unat bs)) = map unat bs"
    using assms by (induction bs) (simp_all add: utf16_units_def)
  show ?thesis
  proof (cases bs)
    case Nil
    then show ?thesis by (simp add: TextDecoder_decode_def)
  next
    case (Cons b bs')
    with assms have "unat b \<noteq> 0xFEFF" by auto
    with Cons c utf8_decode_ascii[OF assms] show ?thesis
      by (simp add: TextDecoder_decode_def)
  qed
qed

lemma TextDecoder_decode_bytes_of:
  "\<forall>c \<in> set s. (of_char c :: nat) < 0x80 \<Longrightarrow> TextDecoder_decode (bytes_of s) = str s"
  using TextDecoder_decode_ascii[of "bytes_of s"]
  by (simp add: bytes_of_def str_def unat_of_char comp_def)

section \<open>The single-field patterns\<close>

lemma ms_star_st:
  assumes "\<And>st. ms ic r st = one_char p st"
  shows "ms ic (Star r g) st = star1 p g (endIndex st) (rest st) (captures st)"
  using ms_star_one_char[of ic r p g "endIndex st" "rest st" "captures st", OF assms]
  by simp

lemma star1_greedy_head:
  "\<exists>ts. star1 p True i w caps = MState (i + length (takeWhile p w)) (dropWhile p w) caps # ts"
proof (induction w arbitrary: i)
  case Nil
  show ?case by simp
next
  case (Cons c cs)
  from Cons[of "Suc i"] show ?case by auto
qed

lemma take_length_takeWhile: "take (length (takeWhile p cs)) cs = takeWhile p cs"
  by (induction cs) auto

lemma ms_not_nl: "ms ic (Cls True [CRange 0x0A 0x0A]) st = one_char (\<lambda>d. d \<noteq> 0x0A) st"
  by (simp add: eq_commute)

lemma ms_field_value:
  "field_value key w = None \<Longrightarrow>
     ms True (re_seqs [re_lit key, Grp 1 (re_plus (Cls True [CRange 0x0A 0x0A]))]) (MState i w []) = []"
  "field_value key w = Some v \<Longrightarrow>
     \<exists>t ts. ms True (re_seqs [re_lit key, Grp 1 (re_plus (Cls True [CRange 0x0A 0x0A]))]) (MState i w []) = t # ts \<and>
       map_of (captures t) 1 = Some v"
proof -
  define N where "N = Cls True [CRange 0x0A 0x0A]"
  have n: "ms True N st = one_char (\<lambda>d. d \<noteq> 0x0A) st" for st
    unfolding N_def by (rule ms_not_nl)
  have g_nil: "ms True (Seq (Grp 1 (re_plus N)) Emp) (MState j [] []) = []" for j
    by (simp add: re_plus_def n)
  have g_nl: "ms True (Seq (Grp 1 (re_plus N)) Emp) (MState j (0x0A # cs) []) = []" for j cs
    by (simp add: re_plus_def n)
  have g_ok: "\<exists>t ts. ms True (Seq (Grp 1 (re_plus N)) Emp) (MState j (c # cs) []) = t # ts \<and>
       map_of (captures t) 1 = Some (takeWhile (\<lambda>d. d \<noteq> 0x0A) (c # cs))" if "c \<noteq> 0x0A" for j c cs
  proof -
    from star1_greedy_head[of "\<lambda>d. d \<noteq> 0x0A" "Suc j" cs "[]"] obtain ts where
      ts: "star1 (\<lambda>d. d \<noteq> 0x0A) True (Suc j) cs [] =
           MState (Suc j + length (takeWhile (\<lambda>d. d \<noteq> 0x0A) cs)) (dropWhile (\<lambda>d. d \<noteq> 0x0A) cs) [] # ts"
      by blast
    show ?thesis using that
      by (simp add: re_plus_def n ms_star_st[of True N, OF n] advance_def ts take_length_takeWhile)
  qed
  define G where "G = Seq (Grp 1 (re_plus N)) Emp"
  note g = g_nil[folded G_def] g_nl[folded G_def]
  have m: "ms True (re_seqs [re_lit key, Grp 1 (re_plus (Cls True [CRange 0x0A 0x0A]))]) (MState i w []) =
      (if lit_prefix True key w then ms True G (MState (i + length key) (drop (length key) w) []) else [])"
    unfolding N_def[symmetric] re_seqs_Cons re_seqs_Nil ms_Seq_re_lit G_def by (rule refl)
  show "field_value key w = None \<Longrightarrow>
     ms True (re_seqs [re_lit key, Grp 1 (re_plus (Cls True [CRange 0x0A 0x0A]))]) (MState i w []) = []"
    unfolding m
    by (cases "drop (length key) w") (auto simp: field_value_def g split: if_splits)
  show "field_value key w = Some v \<Longrightarrow>
     \<exists>t ts. ms True (re_seqs [re_lit key, Grp 1 (re_plus (Cls True [CRange 0x0A 0x0A]))]) (MState i w []) = t # ts \<and>
       map_of (captures t) 1 = Some v"
    unfolding m
    using g_ok[folded G_def]
    by (cases "drop (length key) w") (auto simp: field_value_def split: if_splits)
qed

lemma str_match_field:
  "(case str_match True (re_seqs [re_lit key, Grp 1 (re_plus (Cls True [CRange 0x0A 0x0A]))]) s of
      None \<Rightarrow> None | Some (m, caps) \<Rightarrow> map_of caps 1) = field_capture key s"
  unfolding field_capture_def
proof (rule str_match_scan1)
  fix i w
  assume "field_value key w = None"
  then show "ms True (re_seqs [re_lit key, Grp 1 (re_plus (Cls True [CRange 0x0A 0x0A]))]) (MState i w []) = []"
    by (rule ms_field_value(1))
next
  fix i w v
  assume "field_value key w = Some v"
  then show "\<exists>t ts. ms True (re_seqs [re_lit key, Grp 1 (re_plus (Cls True [CRange 0x0A 0x0A]))]) (MState i w []) = t # ts \<and>
       map_of (captures t) 1 = Some v"
    by (rule ms_field_value(2))
qed

lemma str_match_field_None:
  "(str_match True (re_seqs [re_lit key, Grp 1 (re_plus (Cls True [CRange 0x0A 0x0A]))]) s = None) =
     (field_capture key s = None)"
proof -
  have "(exec_from True (re_seqs [re_lit key, Grp 1 (re_plus (Cls True [CRange 0x0A 0x0A]))]) 0 s = None) =
        (scan (\<lambda>i w. field_value key w) 0 s = None)"
  proof (rule exec_from_scan_None[where n = 1])
    fix i w
    assume "field_value key w = None"
    then show "ms True (re_seqs [re_lit key, Grp 1 (re_plus (Cls True [CRange 0x0A 0x0A]))]) (MState i w []) = []"
      by (rule ms_field_value(1))
  next
    fix i w v
    assume "field_value key w = Some v"
    then show "\<exists>t ts. ms True (re_seqs [re_lit key, Grp 1 (re_plus (Cls True [CRange 0x0A 0x0A]))]) (MState i w []) = t # ts \<and>
         map_of (captures t) 1 = Some v"
      by (rule ms_field_value(2))
  qed
  then show ?thesis
    by (cases "exec_from True (re_seqs [re_lit key, Grp 1 (re_plus (Cls True [CRange 0x0A 0x0A]))]) 0 s")
      (auto simp: str_match_def field_capture_def)
qed

lemma field_match:
  "str_match True (re_seqs [re_lit key, Grp 1 (re_plus (Cls True [CRange 0x0A 0x0A]))]) s = None \<longleftrightarrow>
     field_capture key s = None"
  "field_capture key s = Some v \<Longrightarrow>
     \<exists>m caps. str_match True (re_seqs [re_lit key, Grp 1 (re_plus (Cls True [CRange 0x0A 0x0A]))]) s = Some (m, caps) \<and>
       map_of caps 1 = Some v"
  using str_match_field[of key s] str_match_field_None[of key s]
  by (auto split: option.splits)

lemma ms_star_cls:
  "ms ic (Star (Cls neg atoms) g) st =
     star1 (\<lambda>d. (\<exists>a \<in> set atoms. catom_mem ic a d) \<noteq> neg) g (endIndex st) (rest st) (captures st)"
  by (rule ms_star_st) simp

lemma catom_mem_ex:
  "catom_mem ic (CRange lo hi) d = (\<exists>a. lo \<le> a \<and> a \<le> hi \<and> canon ic a = canon ic d)"
  by auto

lemma catom_mem_alpha_lower:
  "catom_mem True (CRange 0x61 0x7A) d = ((0x41 \<le> d \<and> d \<le> 0x5A) \<or> (0x61 \<le> d \<and> d \<le> 0x7A))"
  unfolding catom_mem_ex
proof
  assume "\<exists>a. 0x61 \<le> a \<and> a \<le> 0x7A \<and> canon True a = canon True d"
  then obtain a where "0x61 \<le> a" "a \<le> 0x7A" "ascii_upper a = ascii_upper d"
    by (auto simp: canon_def)
  then show "(0x41 \<le> d \<and> d \<le> 0x5A) \<or> (0x61 \<le> d \<and> d \<le> 0x7A)"
    by (auto simp: ascii_upper_def split: if_splits)
next
  assume d: "(0x41 \<le> d \<and> d \<le> 0x5A) \<or> (0x61 \<le> d \<and> d \<le> 0x7A)"
  define a where "a = (if d \<le> 0x5A then d + 0x20 else d)"
  from d have "0x61 \<le> a \<and> a \<le> 0x7A \<and> canon True a = canon True d"
    by (auto simp: a_def canon_def ascii_upper_def)
  then show "\<exists>a. 0x61 \<le> a \<and> a \<le> 0x7A \<and> canon True a = canon True d" by blast
qed

lemma catom_mem_alpha_upper:
  "catom_mem True (CRange 0x41 0x5A) d = ((0x41 \<le> d \<and> d \<le> 0x5A) \<or> (0x61 \<le> d \<and> d \<le> 0x7A))"
  unfolding catom_mem_ex
proof
  assume "\<exists>a. 0x41 \<le> a \<and> a \<le> 0x5A \<and> canon True a = canon True d"
  then obtain a where "0x41 \<le> a" "a \<le> 0x5A" "ascii_upper a = ascii_upper d"
    by (auto simp: canon_def)
  then show "(0x41 \<le> d \<and> d \<le> 0x5A) \<or> (0x61 \<le> d \<and> d \<le> 0x7A)"
    by (auto simp: ascii_upper_def split: if_splits)
next
  assume d: "(0x41 \<le> d \<and> d \<le> 0x5A) \<or> (0x61 \<le> d \<and> d \<le> 0x7A)"
  define a where "a = (if d \<le> 0x5A then d else d - 0x20)"
  from d have "0x41 \<le> a \<and> a \<le> 0x5A \<and> canon True a = canon True d"
    by (auto simp: a_def canon_def ascii_upper_def)
  then show "\<exists>a. 0x41 \<le> a \<and> a \<le> 0x5A \<and> canon True a = canon True d" by blast
qed

lemma catom_mem_digit:
  "catom_mem True (CRange 0x30 0x39) d = (0x30 \<le> d \<and> d \<le> 0x39)"
  unfolding catom_mem_ex
proof
  assume "\<exists>a. 0x30 \<le> a \<and> a \<le> 0x39 \<and> canon True a = canon True d"
  then obtain a where "0x30 \<le> a" "a \<le> 0x39" "ascii_upper a = ascii_upper d"
    by (auto simp: canon_def)
  then show "0x30 \<le> d \<and> d \<le> 0x39"
    by (auto simp: ascii_upper_def split: if_splits)
next
  assume d: "0x30 \<le> d \<and> d \<le> 0x39"
  then have "0x30 \<le> d \<and> d \<le> 0x39 \<and> canon True d = canon True d" by simp
  then show "\<exists>a. 0x30 \<le> a \<and> a \<le> 0x39 \<and> canon True a = canon True d" by blast
qed

lemmas re_eval = str_match_def re_plus_def re_at_least2_def re_opt_def ms_Seq_re_lit ms_re_lit
  ms_star_cls catom_mem_range catom_mem_alpha_lower catom_mem_alpha_upper catom_mem_digit
  catom_mem_single crange_def csingle_def lit_prefix.simps canon_def ascii_upper_def ch_def str_def
  advance_def

lemma lit_prefix_app:
  "lit_prefix ic (a @ b) w = (lit_prefix ic a w \<and> lit_prefix ic b (drop (length a) w))"
proof (induction a arbitrary: w)
  case Nil
  show ?case by (simp add: lit_prefix.simps)
next
  case (Cons c cs)
  then show ?case by (cases w) (simp_all add: lit_prefix.simps)
qed

lemma lit_prefix_length: "lit_prefix ic s w \<Longrightarrow> length s \<le> length w"
  by (induction ic s w rule: lit_prefix.induct) (simp_all add: lit_prefix.simps)

lemma field_value_suffix:
  assumes "field_value (a @ b) w \<noteq> None"
  shows "field_value b (drop (length a) w) \<noteq> None" and "length a \<le> length w"
proof -
  from assms have l: "lit_prefix True (a @ b) w"
    by (auto simp: field_value_def split: if_splits)
  then have "lit_prefix True b (drop (length a) w)" by (simp add: lit_prefix_app)
  with assms l show "field_value b (drop (length a) w) \<noteq> None"
    by (auto simp: field_value_def add.commute split: if_splits list.splits)
  from lit_prefix_length[OF l] show "length a \<le> length w" by simp
qed

lemma security_contact_subsumed:
  assumes "field_capture ''Security-Contact: '' s \<noteq> None"
  shows "field_capture ''Contact: '' s \<noteq> None"
proof -
  from assms obtain k where k: "k \<le> length s" "field_value ''Security-Contact: '' (drop k s) \<noteq> None"
    unfolding field_capture_def scan_Some_iff by auto
  have e: "''Security-Contact: '' = ''Security-'' @ ''Contact: ''" by simp
  from field_value_suffix[of "''Security-''" "''Contact: ''" "drop k s"] k(2)
  have "field_value ''Contact: '' (drop (length ''Security-'') (drop k s)) \<noteq> None"
    "length ''Security-'' \<le> length (drop k s)"
    unfolding e[symmetric] by blast+
  then have "field_value ''Contact: '' (drop (length ''Security-'' + k) s) \<noteq> None"
    "length ''Security-'' + k \<le> length s"
    using k(1) by (simp_all del: list.size)
  then have "\<exists>j \<le> length s. field_value ''Contact: '' (drop j s) \<noteq> None" by blast
  then show ?thesis unfolding field_capture_def scan_Some_iff by simp
qed

lemma obj_set_contact: "obj_set (str ''contact'') v [] = [(str ''contact'', v)]"
  by (simp add: obj_set_def str_def)

lemma from_pattern3_contact:
  assumes "field_capture ''Contact: '' s = Some c"
  shows "from_pattern3 s = [(str ''contact'', trim c)]"
proof -
  from field_match(2)[OF assms] obtain m caps where
    "str_match True re_contact s = Some (m, caps)" "map_of caps 1 = Some c"
    unfolding re_contact_def by blast
  then show ?thesis by (simp add: from_pattern3_def obj_set_contact)
qed

lemma str_match_contact_None: "(str_match True re_contact s = None) = (field_capture ''Contact: '' s = None)"
  unfolding re_contact_def by (rule field_match(1))

lemma str_match_security_contact_None:
  "(str_match True re_security_contact s = None) = (field_capture ''Security-Contact: '' s = None)"
  unfolding re_security_contact_def by (rule field_match(1))

lemma from_pattern3_mailto:
  assumes "field_capture ''Contact: '' s = None"
  shows "from_pattern3 s =
     (case str_match True re_mailto_field s of
        None \<Rightarrow> extractSecurityInfoFromText s
      | Some (m, caps) \<Rightarrow> (case map_of caps 1 of Some c \<Rightarrow> [(str ''contact'', trim c)] | None \<Rightarrow> []))"
proof -
  from assms have 1: "str_match True re_contact s = None" by (simp add: str_match_contact_None)
  from assms security_contact_subsumed[of s] have "field_capture ''Security-Contact: '' s = None"
    by blast
  then have 2: "str_match True re_security_contact s = None"
    by (simp add: str_match_security_contact_None)
  show ?thesis
    by (simp add: from_pattern3_def 1 2 obj_set_contact split: option.splits)
qed

lemmas field_eval = field_capture_def scan.simps field_value_def lit_prefix.simps canon_def
  ascii_upper_def ch_def str_def

lemma findAndParse_ascii:
  "\<forall>c \<in> set s. (of_char c :: nat) < 0x80 \<Longrightarrow>
     findAndParseSecurityTxt L (bytes_of s) = from_pattern1 L (str s)"
  by (simp add: findAndParseSecurityTxt_def TextDecoder_decode_bytes_of)

lemma from_pattern1_no_block:
  "std_capture s = None \<or> std_capture s = Some [] \<Longrightarrow>
   truthy_group1 (str_match True re_delimited s) = None \<Longrightarrow>
   from_pattern1 L s = from_pattern3 s"
  by (auto simp: from_pattern1_def from_pattern2_def truthy_standard)

section \<open>The delimited patterns\<close>

lemma no_grp_re_lit: "no_grp (re_lit s)"
  by (induction s) (simp_all add: re_lit_Nil re_lit_Cons)

lemma ms_delim_value:
  "delim_value ic b e w = None \<Longrightarrow>
     ms ic (re_seqs [re_lit b, Grp 1 (Star any_char False), re_lit e]) (MState i w []) = []"
  "delim_value ic b e w = Some v \<Longrightarrow>
     \<exists>t ts. ms ic (re_seqs [re_lit b, Grp 1 (Star any_char False), re_lit e]) (MState i w []) = t # ts \<and>
       map_of (captures t) 1 = Some v"
proof -
  define R where "R = Seq (re_lit e) Emp"
  have ng: "no_grp R" by (simp add: R_def no_grp_re_lit)
  have ok: "(ms ic R (MState i w caps) \<noteq> []) = lit_prefix ic e w" for i w caps
    by (simp add: R_def ms_re_lit)
  define G where "G = Seq (Grp 1 (Star any_char False)) R"
  have m: "ms ic (re_seqs [re_lit b, Grp 1 (Star any_char False), re_lit e]) (MState i w []) =
      (if lit_prefix ic b w then ms ic G (MState (i + length b) (drop (length b) w) []) else [])"
    unfolding re_seqs_Cons re_seqs_Nil ms_Seq_re_lit G_def R_def by (rule refl)
  have lc1: "first_pos (lit_prefix ic e) u = None \<Longrightarrow> ms ic G (MState j u []) = []" for u j
    unfolding G_def by (rule lazy_capture(1)[OF ng ok])
  have lc2: "first_pos (lit_prefix ic e) u = Some k \<Longrightarrow>
      \<exists>t ts. ms ic G (MState j u []) = t # ts \<and> map_of (captures t) 1 = Some (take k u)" for u j k
    unfolding G_def by (rule lazy_capture(2)[OF ng ok])
  show "delim_value ic b e w = None \<Longrightarrow>
     ms ic (re_seqs [re_lit b, Grp 1 (Star any_char False), re_lit e]) (MState i w []) = []"
    unfolding m using lc1 by (auto simp: delim_value_def split: if_splits)
  show "delim_value ic b e w = Some v \<Longrightarrow>
     \<exists>t ts. ms ic (re_seqs [re_lit b, Grp 1 (Star any_char False), re_lit e]) (MState i w []) = t # ts \<and>
       map_of (captures t) 1 = Some v"
    unfolding m using lc2 by (auto simp: delim_value_def split: if_splits)
qed

lemma str_match_delim:
  "(case str_match ic (re_seqs [re_lit b, Grp 1 (Star any_char False), re_lit e]) s of
      None \<Rightarrow> None | Some (m, caps) \<Rightarrow> map_of caps 1) = delim_capture ic b e s"
  unfolding delim_capture_def
proof (rule str_match_scan1)
  fix i w
  assume "delim_value ic b e w = None"
  then show "ms ic (re_seqs [re_lit b, Grp 1 (Star any_char False), re_lit e]) (MState i w []) = []"
    by (rule ms_delim_value(1))
next
  fix i w v
  assume "delim_value ic b e w = Some v"
  then show "\<exists>t ts. ms ic (re_seqs [re_lit b, Grp 1 (Star any_char False), re_lit e]) (MState i w []) = t # ts \<and>
       map_of (captures t) 1 = Some v"
    by (rule ms_delim_value(2))
qed

lemma str_match_delim_None:
  "(str_match ic (re_seqs [re_lit b, Grp 1 (Star any_char False), re_lit e]) s = None) =
     (delim_capture ic b e s = None)"
proof -
  have "(exec_from ic (re_seqs [re_lit b, Grp 1 (Star any_char False), re_lit e]) 0 s = None) =
        (scan (\<lambda>i w. delim_value ic b e w) 0 s = None)"
  proof (rule exec_from_scan_None[where n = 1])
    fix i w
    assume "delim_value ic b e w = None"
    then show "ms ic (re_seqs [re_lit b, Grp 1 (Star any_char False), re_lit e]) (MState i w []) = []"
      by (rule ms_delim_value(1))
  next
    fix i w v
    assume "delim_value ic b e w = Some v"
    then show "\<exists>t ts. ms ic (re_seqs [re_lit b, Grp 1 (Star any_char False), re_lit e]) (MState i w []) = t # ts \<and>
         map_of (captures t) 1 = Some v"
      by (rule ms_delim_value(2))
  qed
  then show ?thesis
    by (cases "exec_from ic (re_seqs [re_lit b, Grp 1 (Star any_char False), re_lit e]) 0 s")
      (auto simp: str_match_def delim_capture_def)
qed

lemma truthy_delimited:
  "truthy_group1 (str_match True re_delimited s) =
     (case delim_capture True ''-----BEGIN SECURITY.TXT-----'' ''-----END SECURITY.TXT-----'' s of
        None \<Rightarrow> None | Some [] \<Rightarrow> None | Some c \<Rightarrow> Some c)"
  unfolding str_match_delim[symmetric] truthy_group1_def re_delimited_def
  by (auto split: option.splits list.splits)

lemma lit_prefix_self: "lit_prefix ic s (str s @ w)"
  by (induction s) (simp_all add: lit_prefix.simps str_def ch_def)

lemma first_pos_Some_le: "first_pos P v = Some m \<Longrightarrow> m \<le> length v"
  by (induction v arbitrary: m) (auto split: if_splits)

lemma delim_capture_exact:
  assumes "first_pos (lit_prefix ic e) (c @ w) = Some (length c)"
  shows "delim_capture ic b e (str b @ c @ w) = Some c"
proof -
  have "delim_value ic b e (str b @ c @ w) = Some c"
    using assms lit_prefix_self[of ic b "c @ w"] by (simp add: delim_value_def str_def)
  then show ?thesis unfolding delim_capture_def by (rule scan_hit)
qed

lemmas delim_eval = delim_capture_def delim_value_def scan.simps first_pos.simps lit_prefix.simps
  canon_def ascii_upper_def ch_def str_def

lemma block_len_take: "block_len (take (block_len v) v) = block_len v"
proof (induction v)
  case Nil
  show ?case by simp
next
  case (Cons c cs)
  show ?case
  proof (cases "block_end (c # cs)")
    case True
    then show ?thesis by simp
  next
    case False
    have "\<not> block_end (c # take (block_len cs) cs)"
    proof (cases "take (block_len cs) cs")
      case Nil
      show ?thesis unfolding Nil by simp
    next
      case (Cons d ds)
      then obtain es where es: "cs = d # es" by (cases cs) (auto split: if_splits)
      from False show ?thesis unfolding Cons es by simp
    qed
    with False Cons.IH show ?thesis by simp
  qed
qed

lemma std_capture_exact:
  assumes "header_text h" "block_len c = length c"
  shows "std_capture (h @ 0x0A # c) = Some c"
  using std_capture_shape[of "[]" "[]" h c] assms by simp

lemmas parse_eval = parseSecurityTxt_caught_eq js_split.simps add_entry_def line_entry_def
  field_line_def trim_def startsWith_def is_ws_def is_line_terminator_def toLowerCase_def
  ascii_lower_def obj_set_def str_def Let_def

lemma from_pattern1_delimited:
  assumes "std_capture s = None"
    and "delim_capture True ''-----BEGIN SECURITY.TXT-----'' ''-----END SECURITY.TXT-----'' s = Some c"
    and "c \<noteq> []"
  shows "from_pattern1 L s = parseSecurityTxt_caught L c"
  using assms by (cases c) (simp_all add: from_pattern1_def from_pattern2_def truthy_standard truthy_delimited)

section \<open>The patterns of the fallback\<close>

lemma match_all_None: "str_match ic r s = None \<Longrightarrow> match_all ic r 0 s = []"
  by (subst match_all.simps) (auto simp: str_match_def split: option.splits prod.splits)

lemma match_all_Some: "str_match ic r s = Some (m, caps) \<Longrightarrow> \<exists>ms. match_all ic r 0 s = m # ms"
  by (subst match_all.simps) (auto simp: str_match_def split: option.splits prod.splits)

lemma match_all_Nil_iff: "(match_all ic r 0 s = []) = (str_match ic r s = None)"
  using match_all_None[of ic r s] match_all_Some[of ic r s]
  by (cases "str_match ic r s") auto

lemma contact_of_matches:
  "(case concat (map (\<lambda>r. match_all ic r 0 s) rs) of [] \<Rightarrow> [] | m # _ \<Rightarrow> obj_set (str ''contact'') m []) =
     (case first_match ic rs s of None \<Rightarrow> [] | Some m \<Rightarrow> [(str ''contact'', m)])"
proof (induction rs)
  case Nil
  show ?case by simp
next
  case (Cons r rs)
  show ?case
  proof (cases "str_match ic r s")
    case None
    with Cons match_all_None[OF None] show ?thesis by simp
  next
    case (Some a)
    obtain m caps where a: "a = (m, caps)" by (cases a)
    from match_all_Some[OF Some[unfolded a]] obtain ms where "match_all ic r 0 s = m # ms" by blast
    with Some a show ?thesis by (simp add: obj_set_contact)
  qed
qed

lemma first_pos_exists: "k \<le> length v \<Longrightarrow> P (drop k v) \<Longrightarrow> first_pos P v \<noteq> None"
proof (induction v arbitrary: k)
  case Nil
  then show ?case by simp
next
  case (Cons c cs)
  show ?case
  proof (cases k)
    case 0
    with Cons.prems show ?thesis by simp
  next
    case (Suc j)
    with Cons.prems Cons.IH[of j] show ?thesis by auto
  qed
qed

lemma delim_capture_present:
  "delim_capture ic b e (u @ str b @ v @ str e @ w) \<noteq> None"
proof -
  have "lit_prefix ic e (drop (length v) (v @ str e @ w))"
    using lit_prefix_self[of ic e w] by simp
  then have "first_pos (lit_prefix ic e) (v @ str e @ w) \<noteq> None"
    by (intro first_pos_exists[of "length v"]) simp_all
  then have "delim_value ic b e (str b @ v @ str e @ w) \<noteq> None"
    using lit_prefix_self[of ic b "v @ str e @ w"] by (simp add: delim_value_def str_def)
  then have "\<exists>k \<le> length (u @ str b @ v @ str e @ w).
      delim_value ic b e (drop k (u @ str b @ v @ str e @ w)) \<noteq> None"
    by (intro exI[of _ "length u"]) simp
  then show ?thesis unfolding delim_capture_def scan_Some_iff by simp
qed

lemma pgp_None:
  "(match_all False re_pgp 0 s = []) =
     (delim_capture False ''-----BEGIN PGP PUBLIC KEY BLOCK-----'' ''-----END PGP PUBLIC KEY BLOCK-----'' s = None)"
  unfolding match_all_Nil_iff re_pgp_def by (rule str_match_delim_None)

lemma extract_eq:
  "extractSecurityInfoFromText s =
     (let result =
            (case first_match False
                    [re_security_email, re_mailto, re_url ''/security'',
                     re_url ''/responsible-disclosure'', re_url ''/vulnerability''] s of
               None \<Rightarrow> []
             | Some m \<Rightarrow> [(str ''contact'', m)])
      in if delim_capture False ''-----BEGIN PGP PUBLIC KEY BLOCK-----''
              ''-----END PGP PUBLIC KEY BLOCK-----'' s \<noteq> None
         then result @ [(str ''encryption'', str ''PGP key found in program data'')]
         else result)"
proof -
  have c: "(case match_all False re_security_email 0 s @ match_all False re_mailto 0 s @
            match_all False (re_url ''/security'') 0 s @
            match_all False (re_url ''/responsible-disclosure'') 0 s @
            match_all False (re_url ''/vulnerability'') 0 s of
            [] \<Rightarrow> [] | m # _ \<Rightarrow> obj_set (str ''contact'') m []) =
       (case first_match False
                    [re_security_email, re_mailto, re_url ''/security'',
                     re_url ''/responsible-disclosure'', re_url ''/vulnerability''] s of
               None \<Rightarrow> []
             | Some m \<Rightarrow> [(str ''contact'', m)])"
    using contact_of_matches[of False s "[re_security_email, re_mailto, re_url ''/security'',
                     re_url ''/responsible-disclosure'', re_url ''/vulnerability'']"]
    by simp
  have e: "obj_set (str ''encryption'') v r = r @ [(str ''encryption'', v)]"
    if "r = [] \<or> (\<exists>m. r = [(str ''contact'', m)])" for v r
    using that by (auto simp: obj_set_def str_def)
  show ?thesis
    unfolding extractSecurityInfoFromText_def Let_def c pgp_None
    by (auto simp: e split: option.splits)
qed

lemma pgp_present:
  "str_match False re_pgp
     (u @ str ''-----BEGIN PGP PUBLIC KEY BLOCK-----'' @ v @ str ''-----END PGP PUBLIC KEY BLOCK-----'' @ w) \<noteq> None"
  unfolding re_pgp_def str_match_delim_None by (rule delim_capture_present)

lemmas fallback_eval = first_match.simps re_security_email_def re_mailto_def re_url_def re_pgp_def
  re_email_def any_char_def

section \<open>The cascade\<close>

lemma findAndParse_first_block:
  assumes "TextDecoder_decode bs = pre @ start @ h @ 0x0A # rs"
    and "\<not> has_header (pre @ start)"
    and "(start = [] \<and> pre = []) \<or> start = [0x0A]"
    and "header_text h"
    and "block_len rs \<noteq> 0"
  shows "findAndParseSecurityTxt L bs = parseSecurityTxt_caught L (take (block_len rs) rs)"
    and "from_pattern1 L (h @ 0x0A # take (block_len rs) rs) =
           parseSecurityTxt_caught L (take (block_len rs) rs)"
proof -
  have ne: "take (block_len rs) rs \<noteq> []" using assms(5) by (cases rs) auto
  have c: "std_capture (TextDecoder_decode bs) = Some (take (block_len rs) rs)"
    unfolding assms(1) using assms(2,3,4) by (rule std_capture_first)
  show "findAndParseSecurityTxt L bs = parseSecurityTxt_caught L (take (block_len rs) rs)"
    unfolding findAndParseSecurityTxt_def Let_def using c ne by (rule from_pattern1_capture)
  have "std_capture (h @ 0x0A # take (block_len rs) rs) = Some (take (block_len rs) rs)"
    using assms(4) block_len_take[of rs] std_capture_shape[of "[]" "[]" h "take (block_len rs) rs"]
    by simp
  then show "from_pattern1 L (h @ 0x0A # take (block_len rs) rs) =
           parseSecurityTxt_caught L (take (block_len rs) rs)"
    using ne by (rule from_pattern1_capture)
qed

lemma from_pattern1_stages:
  "std_capture s = Some c \<Longrightarrow> c \<noteq> [] \<Longrightarrow> from_pattern1 L s = parseSecurityTxt_caught L c"
  "std_capture s = None \<or> std_capture s = Some [] \<Longrightarrow>
     delim_capture True ''-----BEGIN SECURITY.TXT-----'' ''-----END SECURITY.TXT-----'' s = Some c \<Longrightarrow>
     c \<noteq> [] \<Longrightarrow> from_pattern1 L s = parseSecurityTxt_caught L c"
  "std_capture s = None \<or> std_capture s = Some [] \<Longrightarrow>
     delim_capture True ''-----BEGIN SECURITY.TXT-----'' ''-----END SECURITY.TXT-----'' s = None \<or>
     delim_capture True ''-----BEGIN SECURITY.TXT-----'' ''-----END SECURITY.TXT-----'' s = Some [] \<Longrightarrow>
     from_pattern1 L s = from_pattern3 s"
proof -
  show "std_capture s = Some c \<Longrightarrow> c \<noteq> [] \<Longrightarrow> from_pattern1 L s = parseSecurityTxt_caught L c"
    by (rule from_pattern1_capture)
  show "std_capture s = None \<or> std_capture s = Some [] \<Longrightarrow>
     delim_capture True ''-----BEGIN SECURITY.TXT-----'' ''-----END SECURITY.TXT-----'' s = Some c \<Longrightarrow>
     c \<noteq> [] \<Longrightarrow> from_pattern1 L s = parseSecurityTxt_caught L c"
    by (cases c) (auto simp: from_pattern1_def from_pattern2_def truthy_standard truthy_delimited)
  show "std_capture s = None \<or> std_capture s = Some [] \<Longrightarrow>
     delim_capture True ''-----BEGIN SECURITY.TXT-----'' ''-----END SECURITY.TXT-----'' s = None \<or>
     delim_capture True ''-----BEGIN SECURITY.TXT-----'' ''-----END SECURITY.TXT-----'' s = Some [] \<Longrightarrow>
     from_pattern1 L s = from_pattern3 s"
    by (auto simp: from_pattern1_def from_pattern2_def truthy_standard truthy_delimited)
qed

lemma from_pattern1_header:
  assumes "has_header s"
  shows "\<exists>c. std_capture s = Some c \<and>
           from_pattern1 L s = (if c = [] then from_pattern2 L s else parseSecurityTxt_caught L c)"
proof -
  from assms obtain c where c: "std_capture s = Some c" by (auto simp: has_header_iff)
  then have "from_pattern1 L s = (if c = [] then from_pattern2 L s else parseSecurityTxt_caught L c)"
    by (cases c) (simp_all add: from_pattern1_def truthy_standard)
  with c show ?thesis by blast
qed

lemma from_pattern1_first_header:
  assumes "\<not> has_header (pre @ start)"
    and "(start = [] \<and> pre = []) \<or> start = [0x0A]"
    and "header_text h"
  shows "has_header (pre @ start @ h @ 0x0A # rs)"
    and "block_len rs \<noteq> 0 \<Longrightarrow>
           from_pattern1 L (pre @ start @ h @ 0x0A # rs) =
             parseSecurityTxt_caught L (take (block_len rs) rs)"
proof -
  have c: "std_capture (pre @ start @ h @ 0x0A # rs) = Some (take (block_len rs) rs)"
    using assms by (rule std_capture_first)
  then show "has_header (pre @ start @ h @ 0x0A # rs)" by (simp add: has_header_iff)
  assume "block_len rs \<noteq> 0"
  then have "take (block_len rs) rs \<noteq> []" by (cases rs) auto
  with c show "from_pattern1 L (pre @ start @ h @ 0x0A # rs) =
             parseSecurityTxt_caught L (take (block_len rs) rs)"
    by (rule from_pattern1_capture)
qed

section \<open>Account keys\<close>

lemma foldl_be_bound:
  "foldl (\<lambda>n b. n * 256 + unat (b::byte)) a bs < (a + 1) * 256 ^ length bs"
proof (induction bs arbitrary: a)
  case Nil
  show ?case by simp
next
  case (Cons b bs)
  have "unat b < 256" using unsigned_less[of b, where ?'a = nat] by simp
  then have "a * 256 + unat b + 1 \<le> (a + 1) * 256" by simp
  then have le: "(a * 256 + unat b + 1) * 256 ^ length bs \<le> ((a + 1) * 256) * 256 ^ length bs"
    by (rule mult_le_mono1)
  have "foldl (\<lambda>n b. n * 256 + unat (b::byte)) (a * 256 + unat b) bs
      < (a * 256 + unat b + 1) * 256 ^ length bs"
    by (rule Cons.IH)
  also note le
  also have "((a + 1) * 256) * 256 ^ length bs = (a + 1) * 256 ^ length (b # bs)"
    by (simp add: algebra_simps)
  finally show ?case by simp
qed

lemma be_nat_bound: "length bs \<le> 32 \<Longrightarrow> be_nat bs < 2 ^ 256"
proof -
  assume l: "length bs \<le> 32"
  have "be_nat bs < 256 ^ length bs"
    using foldl_be_bound[of 0 bs] by (simp add: be_nat_def)
  also have "(256::nat) ^ length bs \<le> 256 ^ 32"
    using l by (intro power_increasing) simp_all
  also have "(256::nat) ^ 32 = 2 ^ 256" by simp
  finally show ?thesis .
qed

lemma PublicKey_of_slice:
  "PublicKey_of_buffer (slice 4 36 d) = Inr (be_nat (slice 4 36 d))"
  using be_nat_bound[of "slice 4 36 d"] by (simp add: PublicKey_of_buffer_def slice_def)

lemma loader_value:
  "BPF_UPGRADEABLE_LOADER_ID = 0x02a8f6914e88a1b0e210153ef763ae2b00c2b93d16c124d2c0537a1004800000"
  by (simp add: BPF_UPGRADEABLE_LOADER_ID_def base58_value_def base58_alphabet_def)

lemma PublicKey_of_string_ones:
  "PublicKey_of_string ''11111111111111111111111111111111'' = Inr 0"
  by (simp add: PublicKey_of_string_def base58_value_def base58_alphabet_def byte_length_def)

lemma loader_nonzero: "(0::nat) \<noteq> BPF_UPGRADEABLE_LOADER_ID"
  by (simp add: loader_value)

lemma handler_direct:
  assumes "PublicKey_of_string s = Inr p" "connection p = Inr (Some acct)"
    and "owner acct \<noteq> BPF_UPGRADEABLE_LOADER_ID"
  shows "snd (handler L connection s) =
     (if findAndParseSecurityTxt L (data acct) = []
      then \<lparr>status = ''warning'', info = None,
            message = ''No security.txt information found for this program''\<rparr>
      else \<lparr>status = ''success'', info = Some (findAndParseSecurityTxt L (data acct)),
            message = ''Successfully retrieved security.txt information''\<rparr>)"
  using assms by (simp add: handler_def getSecurityTxtInfo_def programData_of_def)

lemma handler_programData:
  assumes "PublicKey_of_string pid = Inr p" "programData_of connection p = (fetched, Inr bs)"
  shows "handler L connection pid =
     (fetched,
      if findAndParseSecurityTxt L bs = []
      then \<lparr>status = ''warning'', info = None,
            message = ''No security.txt information found for this program''\<rparr>
      else \<lparr>status = ''success'', info = Some (findAndParseSecurityTxt L bs),
            message = ''Successfully retrieved security.txt information''\<rparr>)"
  using assms by (simp add: handler_def getSecurityTxtInfo_def)

lemma extract_nothing:
  assumes "match_all False re_security_email 0 s = []"
    and "match_all False re_mailto 0 s = []"
    and "match_all False (re_url ''/security'') 0 s = []"
    and "match_all False (re_url ''/responsible-disclosure'') 0 s = []"
    and "match_all False (re_url ''/vulnerability'') 0 s = []"
    and "match_all False re_pgp 0 s = []"
  shows "extractSecurityInfoFromText s = []"
  using assms by (simp add: extractSecurityInfoFromText_def)

section \<open>Claims about the account layout\<close>

text \<open>
  C2, as the code has it.  For a primary account owned by the upgradeable loader whose
  data is empty or whose first data byte is not 2, \<open>getSecurityTxtInfo\<close> fails with the
  error "Not a valid upgradeable program account": only the primary account has been
  fetched and no mapping is returned.
\<close>

theorem invalid_layout_on_first_byte:
  assumes "connection programId = Inr (Some acct)"
    and "owner acct = BPF_UPGRADEABLE_LOADER_ID"
    and "data acct = [] \<or> hd (data acct) \<noteq> 2"
  shows "getSecurityTxtInfo L connection programId =
           ([programId], Inl (Error ''Not a valid upgradeable program account''))"
  using assms
  by (auto simp: getSecurityTxtInfo_def programData_of_def Let_def slice_def hd_take)

theorem invalid_layout_on_first_byte_witness:
  "getSecurityTxtInfo (\<lambda>s. s)
     (\<lambda>k. if k = 1 then Inr (Some \<lparr>owner = BPF_UPGRADEABLE_LOADER_ID, data = [3, 0, 0, 0]\<rparr>)
          else Inr None) 1 =
   ([1], Inl (Error ''Not a valid upgradeable program account''))"
  using invalid_layout_on_first_byte
    [of "\<lambda>k. if k = 1 then Inr (Some \<lparr>owner = BPF_UPGRADEABLE_LOADER_ID, data = [3, 0, 0, 0]\<rparr>)
              else Inr None"
        1 "\<lparr>owner = BPF_UPGRADEABLE_LOADER_ID, data = [3, 0, 0, 0]\<rparr>" "\<lambda>s. s"]
  by simp

text \<open>
  C2, as stated, fails on data that is truncated after a valid tag: the account below is
  owned by the upgradeable loader and has only the four tag bytes \<open>2, 0, 0, 0\<close>.  The call
  does not fail with the layout error: it reads the key 0 from the empty window, fetches
  that account, and fails because it is absent.
\<close>

theorem truncated_program_account_counterexample:
  "getSecurityTxtInfo (\<lambda>s. s)
     (\<lambda>k. if k = 1 then Inr (Some \<lparr>owner = BPF_UPGRADEABLE_LOADER_ID, data = [2, 0, 0, 0]\<rparr>)
          else Inr None) 1 =
   ([1, 0], Inl (Error ''Program data account not found''))"
  by (simp add: getSecurityTxtInfo_def programData_of_def Let_def slice_def
      PublicKey_of_buffer_def be_nat_def)

text \<open>
  C3.  For a primary account owned by the upgradeable loader whose first data byte is the
  Program tag 2, when the account at the address read from the primary account is absent,
  \<open>getSecurityTxtInfo\<close> fails with the error "Program data account not found" and returns
  no mapping, and the handler answers with the status \<open>error\<close>.
\<close>

theorem program_data_account_absent:
  assumes "connection programId = Inr (Some acct)"
    and "owner acct = BPF_UPGRADEABLE_LOADER_ID"
    and "data acct \<noteq> []" and "hd (data acct) = 2"
    and "connection (be_nat (slice 4 36 (data acct))) = Inr None"
  shows "getSecurityTxtInfo L connection programId =
           ([programId, be_nat (slice 4 36 (data acct))],
            Inl (Error ''Program data account not found'')) \<and>
         (\<forall>s. PublicKey_of_string s = Inr programId \<longrightarrow>
            snd (handler L connection s) =
              \<lparr>status = ''error'', info = None,
               message = ''Failed to get security.txt info: Program data account not found''\<rparr>)"
  using assms PublicKey_of_slice[of "data acct"]
  by (auto simp: handler_def getSecurityTxtInfo_def programData_of_def Let_def slice_def hd_take)

theorem program_data_account_absent_witness:
  "getSecurityTxtInfo (\<lambda>s. s)
     (\<lambda>k. if k = 0
          then Inr (Some \<lparr>owner = BPF_UPGRADEABLE_LOADER_ID,
                           data = [2, 0, 0, 0,
                                   0, 0, 0, 0, 0, 0, 0, 0, 0, 0, 0, 0, 0, 0, 0, 0,
                                   0, 0, 0, 0, 0, 0, 0, 0, 0, 0, 0, 0, 0, 0, 0, 1]\<rparr>)
          else Inr None) 0 =
     ([0, 1], Inl (Error ''Program data account not found'')) \<and>
   snd (handler (\<lambda>s. s)
     (\<lambda>k. if k = 0
          then Inr (Some \<lparr>owner = BPF_UPGRADEABLE_LOADER_ID,
                           data = [2, 0, 0, 0,
                                   0, 0, 0, 0, 0, 0, 0, 0, 0, 0, 0, 0, 0, 0, 0, 0,
                                   0, 0, 0, 0, 0, 0, 0, 0, 0, 0, 0, 0, 0, 0, 0, 1]\<rparr>)
          else Inr None) ''11111111111111111111111111111111'') =
     \<lparr>status = ''error'', info = None,
      message = ''Failed to get security.txt info: Program data account not found''\<rparr>"
  using program_data_account_absent
    [of "\<lambda>k. if k = 0
          then Inr (Some \<lparr>owner = BPF_UPGRADEABLE_LOADER_ID,
                           data = [2, 0, 0, 0,
                                   0, 0, 0, 0, 0, 0, 0, 0, 0, 0, 0, 0, 0, 0, 0, 0,
                                   0, 0, 0, 0, 0, 0, 0, 0, 0, 0, 0, 0, 0, 0, 0, 1]\<rparr>)
          else Inr None"
        0 "\<lparr>owner = BPF_UPGRADEABLE_LOADER_ID,
             data = [2, 0, 0, 0,
                     0, 0, 0, 0, 0, 0, 0, 0, 0, 0, 0, 0, 0, 0, 0, 0,
                     0, 0, 0, 0, 0, 0, 0, 0, 0, 0, 0, 0, 0, 0, 0, 1]\<rparr>" "\<lambda>s. s"]
    PublicKey_of_string_ones
  by (simp add: slice_def be_nat_def)

text \<open>
  C4.  The bytes that are searched (\<open>programData_of\<close>, handed to
  \<open>findAndParseSecurityTxt\<close>): for a primary account not owned by the upgradeable loader,
  its data unchanged; for one owned by the loader whose first byte is 2, the data of the
  account whose address is the 32-byte window at offset 4 of the primary account's data,
  without its first 8 bytes.
\<close>

theorem program_data_derivation:
  assumes "connection programId = Inr (Some acct)"
  shows "(owner acct \<noteq> BPF_UPGRADEABLE_LOADER_ID \<longrightarrow>
           programData_of connection programId = ([programId], Inr (data acct)) \<and>
           getSecurityTxtInfo L connection programId =
             ([programId], Inr (findAndParseSecurityTxt L (data acct)))) \<and>
         (owner acct = BPF_UPGRADEABLE_LOADER_ID \<and> data acct \<noteq> [] \<and> hd (data acct) = 2 \<and>
          connection (be_nat (take 32 (drop 4 (data acct)))) = Inr (Some pd) \<longrightarrow>
           programData_of connection programId =
             ([programId, be_nat (take 32 (drop 4 (data acct)))], Inr (drop 8 (data pd))) \<and>
           getSecurityTxtInfo L connection programId =
             ([programId, be_nat (take 32 (drop 4 (data acct)))],
              Inr (findAndParseSecurityTxt L (drop 8 (data pd)))))"
  using assms PublicKey_of_slice[of "data acct"]
  by (auto simp: getSecurityTxtInfo_def programData_of_def Let_def slice_def hd_take)

theorem program_data_derivation_witness:
  "programData_of
     (\<lambda>k. if k = 5 then Inr (Some \<lparr>owner = 0, data = [9, 8, 7]\<rparr>) else Inr None) 5 =
     ([5], Inr [9, 8, 7]) \<and>
   programData_of
     (\<lambda>k. if k = 0
          then Inr (Some \<lparr>owner = BPF_UPGRADEABLE_LOADER_ID,
                           data = [2, 0, 0, 0,
                                   0, 0, 0, 0, 0, 0, 0, 0, 0, 0, 0, 0, 0, 0, 0, 0,
                                   0, 0, 0, 0, 0, 0, 0, 0, 0, 0, 0, 0, 0, 0, 0, 1]\<rparr>)
          else if k = 1
          then Inr (Some \<lparr>owner = BPF_UPGRADEABLE_LOADER_ID,
                           data = [3, 1, 2, 3, 4, 5, 6, 7, 65, 66, 67]\<rparr>)
          else Inr None) 0 =
     ([0, 1], Inr [65, 66, 67])"
  using program_data_derivation
    [of "\<lambda>k. if k = 5 then Inr (Some \<lparr>owner = 0, data = [9, 8, 7]\<rparr>) else Inr None"
        5 "\<lparr>owner = 0, data = [9, 8, 7]\<rparr>" "\<lambda>s. s"]
    program_data_derivation
    [of "\<lambda>k. if k = 0
          then Inr (Some \<lparr>owner = BPF_UPGRADEABLE_LOADER_ID,
                           data = [2, 0, 0, 0,
                                   0, 0, 0, 0, 0, 0, 0, 0, 0, 0, 0, 0, 0, 0, 0, 0,
                                   0, 0, 0, 0, 0, 0, 0, 0, 0, 0, 0, 0, 0, 0, 0, 1]\<rparr>)
          else if k = 1
          then Inr (Some \<lparr>owner = BPF_UPGRADEABLE_LOADER_ID,
                           data = [3, 1, 2, 3, 4, 5, 6, 7, 65, 66, 67]\<rparr>)
          else Inr None"
        0 "\<lparr>owner = BPF_UPGRADEABLE_LOADER_ID,
             data = [2, 0, 0, 0,
                     0, 0, 0, 0, 0, 0, 0, 0, 0, 0, 0, 0, 0, 0, 0, 0,
                     0, 0, 0, 0, 0, 0, 0, 0, 0, 0, 0, 0, 0, 0, 0, 1]\<rparr>"
        "\<lambda>s. s"
        "\<lparr>owner = BPF_UPGRADEABLE_LOADER_ID,
             data = [3, 1, 2, 3, 4, 5, 6, 7, 65, 66, 67]\<rparr>"]
    loader_value
  by (simp add: be_nat_def)

section \<open>Claims about the cascade\<close>

text \<open>
  C10.  The standard-block pattern matches a text exactly when the text has a header
  line: \<open>#\<close>, at most one space, \<open>security.txt\<close> up to case, at the start of the text or
  after a newline, and followed by a newline or the end of the text.  On a text without
  such a line (two spaces, a tab or anything else between \<open>#\<close> and \<open>security.txt\<close>) the
  function goes on with the delimited-block pattern and the ones after it.  On a text
  with such a line the function takes the block after the first header line: when the
  block is not empty the result is the normalizer's mapping of it, and only when it is
  empty the function goes on with the delimited-block pattern.  A line \<open>#security.txt\<close> or
  \<open># security.txt\<close>, in any case, at the start of the text or after a newline and followed
  by a newline, is such a header line.
\<close>

theorem standard_header_recognition:
  "(str_match True re_standard s \<noteq> None) = has_header s \<and>
   (\<not> has_header s \<longrightarrow> from_pattern1 L s = from_pattern2 L s) \<and>
   (\<not> has_header (TextDecoder_decode bs) \<longrightarrow>
      findAndParseSecurityTxt L bs = from_pattern2 L (TextDecoder_decode bs)) \<and>
   (has_header s \<longrightarrow>
      (\<exists>c. std_capture s = Some c \<and>
           from_pattern1 L s = (if c = [] then from_pattern2 L s else parseSecurityTxt_caught L c))) \<and>
   (\<not> has_header (pre @ start) \<and> ((start = [] \<and> pre = []) \<or> start = [0x0A]) \<and> header_text h \<longrightarrow>
      has_header (pre @ start @ h @ 0x0A # rs) \<and>
      (block_len rs \<noteq> 0 \<longrightarrow>
         from_pattern1 L (pre @ start @ h @ 0x0A # rs) =
           parseSecurityTxt_caught L (take (block_len rs) rs)))"
proof (intro conjI impI)
  show "(str_match True re_standard s \<noteq> None) = has_header s"
    by (simp add: has_header_iff str_match_standard_None)
next
  assume "\<not> has_header s"
  then show "from_pattern1 L s = from_pattern2 L s"
    by (simp add: has_header_iff from_pattern1_def truthy_standard)
next
  assume "\<not> has_header (TextDecoder_decode bs)"
  then show "findAndParseSecurityTxt L bs = from_pattern2 L (TextDecoder_decode bs)"
    by (simp add: has_header_iff from_pattern1_def truthy_standard findAndParseSecurityTxt_def)
next
  assume "has_header s"
  then show "\<exists>c. std_capture s = Some c \<and>
           from_pattern1 L s = (if c = [] then from_pattern2 L s else parseSecurityTxt_caught L c)"
    by (rule from_pattern1_header)
next
  assume a: "\<not> has_header (pre @ start) \<and> ((start = [] \<and> pre = []) \<or> start = [0x0A]) \<and> header_text h"
  then show "has_header (pre @ start @ h @ 0x0A # rs)"
    by (intro from_pattern1_first_header(1)) simp_all
next
  assume a: "\<not> has_header (pre @ start) \<and> ((start = [] \<and> pre = []) \<or> start = [0x0A]) \<and> header_text h"
    and b: "block_len rs \<noteq> 0"
  from a b show "from_pattern1 L (pre @ start @ h @ 0x0A # rs) =
           parseSecurityTxt_caught L (take (block_len rs) rs)"
    by (intro from_pattern1_first_header(2)) simp_all
qed

theorem standard_header_recognition_witness:
  "str_match True re_standard (str ''# Security.TXT'') \<noteq> None \<and>
   str_match True re_standard (str ''#security.txt'') \<noteq> None \<and>
   str_match True re_standard (str ''#  security.txt'') = None \<and>
   from_pattern1 (\<lambda>s. s) (str ''#  security.txt'') =
     from_pattern2 (\<lambda>s. s) (str ''#  security.txt'') \<and>
   findAndParseSecurityTxt (\<lambda>s. s) (bytes_of ''#x security.txt'') =
     from_pattern2 (\<lambda>s. s) (str ''#x security.txt'') \<and>
   from_pattern1 (\<lambda>s. s) (str ''#security.txt'') = from_pattern2 (\<lambda>s. s) (str ''#security.txt'') \<and>
   has_header (str ''x\<newline># Security.TXT\<newline>policy: p'') \<and>
   from_pattern1 (\<lambda>s. s) (str ''x\<newline># Security.TXT\<newline>policy: p'') =
     [(str ''policy'', str ''p'')]"
proof -
  have a: "has_header (str ''# Security.TXT'')" "has_header (str ''#security.txt'')"
    by (simp_all add: has_header_iff std_eval)
  have b: "\<not> has_header (str ''#  security.txt'')" "\<not> has_header (str ''#x security.txt'')"
    by (simp_all add: has_header_iff std_eval)
  have d: "TextDecoder_decode (bytes_of ''#x security.txt'') = str ''#x security.txt''"
    by (rule TextDecoder_decode_bytes_of) simp
  from standard_header_recognition[of "str ''# Security.TXT''" "\<lambda>s. s" "[]" "[]" "[]" "[]" "[]"] a(1)
  have 1: "str_match True re_standard (str ''# Security.TXT'') \<noteq> None" by blast
  note u = standard_header_recognition[of "str ''#security.txt''" "\<lambda>s. s" "[]" "[]" "[]" "[]" "[]"]
  from u a(2)
  have 2: "str_match True re_standard (str ''#security.txt'') \<noteq> None" by blast
  note t = standard_header_recognition
    [of "str ''#  security.txt''" "\<lambda>s. s" "bytes_of ''#x security.txt''" "[]" "[]" "[]" "[]"]
  from t[THEN conjunct1] b(1)
  have 3: "str_match True re_standard (str ''#  security.txt'') = None" by blast
  from t[THEN conjunct2, THEN conjunct1] b(1)
  have 4: "from_pattern1 (\<lambda>s. s) (str ''#  security.txt'') =
       from_pattern2 (\<lambda>s. s) (str ''#  security.txt'')" by blast
  from t[THEN conjunct2, THEN conjunct2, THEN conjunct1] b(2) d
  have 5: "findAndParseSecurityTxt (\<lambda>s. s) (bytes_of ''#x security.txt'') =
       from_pattern2 (\<lambda>s. s) (str ''#x security.txt'')" by simp
  have e: "std_capture (str ''#security.txt'') = Some []"
    by (simp add: std_eval)
  from u[THEN conjunct2, THEN conjunct2, THEN conjunct2, THEN conjunct1] a(2) e
  have 6: "from_pattern1 (\<lambda>s. s) (str ''#security.txt'') = from_pattern2 (\<lambda>s. s) (str ''#security.txt'')"
    by auto
  have h: "header_text (str ''# Security.TXT'')"
    by (simp add: header_text_def lit_eq_def lit_prefix.simps canon_def ascii_upper_def ch_def str_def)
  have nh: "\<not> has_header (str ''x'' @ [0x0A])"
    by (simp add: has_header_iff std_eval)
  have bl: "block_len (str ''policy: p'') \<noteq> 0" "take (block_len (str ''policy: p'')) (str ''policy: p'') = str ''policy: p''"
    by (simp_all add: str_def)
  have p: "parseSecurityTxt_caught (\<lambda>s. s) (str ''policy: p'') = [(str ''policy'', str ''p'')]"
    by (simp add: parse_eval)
  have e2: "str ''x'' @ [0x0A] @ str ''# Security.TXT'' @ 0x0A # str ''policy: p'' =
      str ''x\<newline># Security.TXT\<newline>policy: p''"
    by (simp add: str_def)
  from standard_header_recognition[of "[]" "\<lambda>s. s" "[]" "str ''x''" "[0x0A]" "str ''# Security.TXT''" "str ''policy: p''",
      THEN conjunct2, THEN conjunct2, THEN conjunct2, THEN conjunct2] nh h bl(1)
  have y: "has_header (str ''x'' @ [0x0A] @ str ''# Security.TXT'' @ 0x0A # str ''policy: p'') \<and>
      from_pattern1 (\<lambda>s. s) (str ''x'' @ [0x0A] @ str ''# Security.TXT'' @ 0x0A # str ''policy: p'') =
        parseSecurityTxt_caught (\<lambda>s. s) (take (block_len (str ''policy: p'')) (str ''policy: p''))"
    by blast
  have 7: "has_header (str ''x\<newline># Security.TXT\<newline>policy: p'') \<and>
      from_pattern1 (\<lambda>s. s) (str ''x\<newline># Security.TXT\<newline>policy: p'') = [(str ''policy'', str ''p'')]"
    using y unfolding bl(2) p e2 .
  from 1 2 3 4 5 6 7 show ?thesis by blast
qed

text \<open>
  C5, as the code has it.  The patterns are tried in the order standard block, delimited
  block, single field, fallback, and the first one that yields something decides alone.
  A standard pattern that matches with a block that is not empty gives the normalizer's
  mapping of this block, also when the normalizer finds no field in it; otherwise a
  delimited pattern that matches with a block that is not empty gives the mapping of that
  block; otherwise a single-field pattern that matches gives the mapping with the only
  key \<open>contact\<close>; otherwise the result is the one of the fallback.  In particular, when the
  first header line of the decoded text is followed by a block that is not empty, the
  result is the mapping of this block, which is also the result for the header line and
  the block alone, whatever stands before the header line and after the block.
\<close>

theorem cascade_order:
  "(std_capture s = Some c \<and> c \<noteq> [] \<longrightarrow> from_pattern1 L s = parseSecurityTxt_caught L c) \<and>
   ((std_capture s = None \<or> std_capture s = Some []) \<and>
    delim_capture True ''-----BEGIN SECURITY.TXT-----'' ''-----END SECURITY.TXT-----'' s = Some c \<and>
    c \<noteq> [] \<longrightarrow>
      from_pattern1 L s = parseSecurityTxt_caught L c) \<and>
   ((std_capture s = None \<or> std_capture s = Some []) \<and>
    (delim_capture True ''-----BEGIN SECURITY.TXT-----'' ''-----END SECURITY.TXT-----'' s = None \<or>
     delim_capture True ''-----BEGIN SECURITY.TXT-----'' ''-----END SECURITY.TXT-----'' s = Some []) \<and>
    field_capture ''Contact: '' s = Some c \<longrightarrow>
      from_pattern1 L s = [(str ''contact'', trim c)]) \<and>
   ((std_capture s = None \<or> std_capture s = Some []) \<and>
    (delim_capture True ''-----BEGIN SECURITY.TXT-----'' ''-----END SECURITY.TXT-----'' s = None \<or>
     delim_capture True ''-----BEGIN SECURITY.TXT-----'' ''-----END SECURITY.TXT-----'' s = Some []) \<and>
    field_capture ''Contact: '' s = None \<and>
    str_match True re_mailto_field s = Some (m, caps) \<and> map_of caps 1 = Some c \<longrightarrow>
      from_pattern1 L s = [(str ''contact'', trim c)]) \<and>
   ((std_capture s = None \<or> std_capture s = Some []) \<and>
    (delim_capture True ''-----BEGIN SECURITY.TXT-----'' ''-----END SECURITY.TXT-----'' s = None \<or>
     delim_capture True ''-----BEGIN SECURITY.TXT-----'' ''-----END SECURITY.TXT-----'' s = Some []) \<and>
    field_capture ''Contact: '' s = None \<and> str_match True re_mailto_field s = None \<longrightarrow>
      from_pattern1 L s = extractSecurityInfoFromText s) \<and>
   (TextDecoder_decode bs = pre @ start @ h @ 0x0A # rs \<and> \<not> has_header (pre @ start) \<and>
    ((start = [] \<and> pre = []) \<or> start = [0x0A]) \<and> header_text h \<and> block_len rs \<noteq> 0 \<longrightarrow>
      findAndParseSecurityTxt L bs = parseSecurityTxt_caught L (take (block_len rs) rs) \<and>
      findAndParseSecurityTxt L bs = from_pattern1 L (h @ 0x0A # take (block_len rs) rs))"
proof (intro conjI impI)
  assume "std_capture s = Some c \<and> c \<noteq> []"
  then show "from_pattern1 L s = parseSecurityTxt_caught L c"
    using from_pattern1_stages(1)[of s c L] by blast
next
  assume "(std_capture s = None \<or> std_capture s = Some []) \<and>
    delim_capture True ''-----BEGIN SECURITY.TXT-----'' ''-----END SECURITY.TXT-----'' s = Some c \<and>
    c \<noteq> []"
  then show "from_pattern1 L s = parseSecurityTxt_caught L c"
    using from_pattern1_stages(2)[of s c L] by blast
next
  assume a: "(std_capture s = None \<or> std_capture s = Some []) \<and>
    (delim_capture True ''-----BEGIN SECURITY.TXT-----'' ''-----END SECURITY.TXT-----'' s = None \<or>
     delim_capture True ''-----BEGIN SECURITY.TXT-----'' ''-----END SECURITY.TXT-----'' s = Some []) \<and>
    field_capture ''Contact: '' s = Some c"
  then have "from_pattern1 L s = from_pattern3 s"
    using from_pattern1_stages(3)[of s L] by blast
  with a show "from_pattern1 L s = [(str ''contact'', trim c)]"
    using from_pattern3_contact[of s c] by simp
next
  assume a: "(std_capture s = None \<or> std_capture s = Some []) \<and>
    (delim_capture True ''-----BEGIN SECURITY.TXT-----'' ''-----END SECURITY.TXT-----'' s = None \<or>
     delim_capture True ''-----BEGIN SECURITY.TXT-----'' ''-----END SECURITY.TXT-----'' s = Some []) \<and>
    field_capture ''Contact: '' s = None \<and>
    str_match True re_mailto_field s = Some (m, caps) \<and> map_of caps 1 = Some c"
  then have "from_pattern1 L s = from_pattern3 s"
    using from_pattern1_stages(3)[of s L] by blast
  with a show "from_pattern1 L s = [(str ''contact'', trim c)]"
    using from_pattern3_mailto[of s] by simp
next
  assume a: "(std_capture s = None \<or> std_capture s = Some []) \<and>
    (delim_capture True ''-----BEGIN SECURITY.TXT-----'' ''-----END SECURITY.TXT-----'' s = None \<or>
     delim_capture True ''-----BEGIN SECURITY.TXT-----'' ''-----END SECURITY.TXT-----'' s = Some []) \<and>
    field_capture ''Contact: '' s = None \<and> str_match True re_mailto_field s = None"
  then have "from_pattern1 L s = from_pattern3 s"
    using from_pattern1_stages(3)[of s L] by blast
  with a show "from_pattern1 L s = extractSecurityInfoFromText s"
    using from_pattern3_mailto[of s] by simp
next
  assume a: "TextDecoder_decode bs = pre @ start @ h @ 0x0A # rs \<and> \<not> has_header (pre @ start) \<and>
    ((start = [] \<and> pre = []) \<or> start = [0x0A]) \<and> header_text h \<and> block_len rs \<noteq> 0"
  then show "findAndParseSecurityTxt L bs = parseSecurityTxt_caught L (take (block_len rs) rs)"
    by (intro findAndParse_first_block(1)[of bs pre start h rs]) simp_all
next
  assume a: "TextDecoder_decode bs = pre @ start @ h @ 0x0A # rs \<and> \<not> has_header (pre @ start) \<and>
    ((start = [] \<and> pre = []) \<or> start = [0x0A]) \<and> header_text h \<and> block_len rs \<noteq> 0"
  then have "findAndParseSecurityTxt L bs = parseSecurityTxt_caught L (take (block_len rs) rs)"
    by (intro findAndParse_first_block(1)[of bs pre start h rs]) simp_all
  moreover from a have "from_pattern1 L (h @ 0x0A # take (block_len rs) rs) =
           parseSecurityTxt_caught L (take (block_len rs) rs)"
    by (intro findAndParse_first_block(2)[of bs pre start h rs]) simp_all
  ultimately show "findAndParseSecurityTxt L bs = from_pattern1 L (h @ 0x0A # take (block_len rs) rs)"
    by simp
qed

theorem cascade_order_witness:
  "findAndParseSecurityTxt (\<lambda>s. s)
     (bytes_of ''Contact: x@y.zz\<newline># security.txt\<newline>policy: https://a.bc/p\<newline>\<newline>Contact: q@r.st'') =
     [(str ''policy'', str ''https://a.bc/p'')] \<and>
   findAndParseSecurityTxt (\<lambda>s. s)
     (bytes_of ''Contact: x@y.zz\<newline># security.txt\<newline>policy: https://a.bc/p\<newline>\<newline>Contact: q@r.st'') =
     from_pattern1 (\<lambda>s. s) (str ''# security.txt\<newline>policy: https://a.bc/p'') \<and>
   from_pattern1 (\<lambda>s. s) (str ''#security.txt\<newline>hiring: yes\<newline>\<newline>mailto:x@y.zz'') =
     [(str ''hiring'', str ''yes'')] \<and>
   from_pattern1 (\<lambda>s. s)
     (str ''Contact: x@y.zz\<newline>-----BEGIN SECURITY.TXT-----\<newline>policy: https://a.bc/p\<newline>-----END SECURITY.TXT-----'') =
     [(str ''policy'', str ''https://a.bc/p'')] \<and>
   from_pattern1 (\<lambda>s. s) (str ''Contact: x@y.zz security@a.bc'') =
     [(str ''contact'', str ''x@y.zz security@a.bc'')] \<and>
   from_pattern1 (\<lambda>s. s) (str ''mailto:x@y.zz security@a.bc'') = [(str ''contact'', str ''x@y.zz'')] \<and>
   from_pattern1 (\<lambda>s. s) (str ''see security@a.bc'') = [(str ''contact'', str ''security@a.bc'')]"
proof -
  let ?L = "\<lambda>s :: jstring. s"
  let ?b = "bytes_of ''Contact: x@y.zz\<newline># security.txt\<newline>policy: https://a.bc/p\<newline>\<newline>Contact: q@r.st''"
  let ?rs = "str ''policy: https://a.bc/p\<newline>\<newline>Contact: q@r.st''"
  have d: "TextDecoder_decode ?b = str ''Contact: x@y.zz'' @ [0x0A] @ str ''# security.txt'' @ 0x0A # ?rs"
    by (subst TextDecoder_decode_bytes_of) (simp_all add: str_def)
  have nh: "\<not> has_header (str ''Contact: x@y.zz'' @ [0x0A])"
    by (simp add: has_header_iff std_eval)
  have h: "header_text (str ''# security.txt'')"
    by (simp add: header_text_def lit_eq_def lit_prefix.simps canon_def ascii_upper_def ch_def str_def)
  have bl: "take (block_len ?rs) ?rs = str ''policy: https://a.bc/p''" "block_len ?rs \<noteq> 0"
    by (simp_all add: str_def)
  have p: "parseSecurityTxt_caught ?L (str ''policy: https://a.bc/p'') =
      [(str ''policy'', str ''https://a.bc/p'')]"
    by (simp add: parse_eval)
  have e: "str ''# security.txt'' @ 0x0A # str ''policy: https://a.bc/p'' =
      str ''# security.txt\<newline>policy: https://a.bc/p''"
    by (simp add: str_def)
  from cascade_order[where L = ?L and bs = ?b and pre = "str ''Contact: x@y.zz''" and start = "[0x0A]"
      and h = "str ''# security.txt''" and rs = ?rs and s = "[]" and c = "[]" and m = "[]" and caps = "[]",
      THEN conjunct2, THEN conjunct2, THEN conjunct2, THEN conjunct2, THEN conjunct2] d nh h bl(2)
  have y: "findAndParseSecurityTxt ?L ?b = parseSecurityTxt_caught ?L (take (block_len ?rs) ?rs) \<and>
      findAndParseSecurityTxt ?L ?b = from_pattern1 ?L (str ''# security.txt'' @ 0x0A # take (block_len ?rs) ?rs)"
    by blast
  have x: "findAndParseSecurityTxt ?L ?b = [(str ''policy'', str ''https://a.bc/p'')] \<and>
      findAndParseSecurityTxt ?L ?b = from_pattern1 ?L (str ''# security.txt\<newline>policy: https://a.bc/p'')"
    using y unfolding bl(1) p e .
  from x have 1: "findAndParseSecurityTxt ?L ?b = [(str ''policy'', str ''https://a.bc/p'')]"
    by (rule conjunct1)
  from x have 2: "findAndParseSecurityTxt ?L ?b =
      from_pattern1 ?L (str ''# security.txt\<newline>policy: https://a.bc/p'')"
    by (rule conjunct2)

  let ?s1 = "str ''#security.txt\<newline>hiring: yes\<newline>\<newline>mailto:x@y.zz''"
  have a1: "std_capture ?s1 = Some (str ''hiring: yes'') \<and> str ''hiring: yes'' \<noteq> []"
    by (simp add: std_eval)
  have a2: "parseSecurityTxt_caught ?L (str ''hiring: yes'') = [(str ''hiring'', str ''yes'')]"
    by (simp add: parse_eval)
  from cascade_order[where L = ?L and s = ?s1 and c = "str ''hiring: yes''" and bs = "[]" and pre = "[]"
      and start = "[]" and h = "[]" and rs = "[]" and m = "[]" and caps = "[]", THEN conjunct1] a1
  have "from_pattern1 ?L ?s1 = parseSecurityTxt_caught ?L (str ''hiring: yes'')"
    by blast
  then have 3: "from_pattern1 ?L ?s1 = [(str ''hiring'', str ''yes'')]"
    by (simp only: a2)

  let ?s2 = "str ''Contact: x@y.zz\<newline>-----BEGIN SECURITY.TXT-----\<newline>policy: https://a.bc/p\<newline>-----END SECURITY.TXT-----''"
  have b1: "std_capture ?s2 = None"
    by (simp add: std_eval)
  have b2: "delim_capture True ''-----BEGIN SECURITY.TXT-----'' ''-----END SECURITY.TXT-----'' ?s2 =
      Some (str ''\<newline>policy: https://a.bc/p\<newline>'') \<and> str ''\<newline>policy: https://a.bc/p\<newline>'' \<noteq> []"
    by (simp add: delim_eval)
  have b3: "parseSecurityTxt_caught ?L (str ''\<newline>policy: https://a.bc/p\<newline>'') =
      [(str ''policy'', str ''https://a.bc/p'')]"
    by (simp add: parse_eval)
  from cascade_order[where L = ?L and s = ?s2 and c = "str ''\<newline>policy: https://a.bc/p\<newline>''" and bs = "[]"
      and pre = "[]" and start = "[]" and h = "[]" and rs = "[]" and m = "[]" and caps = "[]",
      THEN conjunct2, THEN conjunct1] b1 b2
  have "from_pattern1 ?L ?s2 = parseSecurityTxt_caught ?L (str ''\<newline>policy: https://a.bc/p\<newline>'')"
    by blast
  then have 4: "from_pattern1 ?L ?s2 = [(str ''policy'', str ''https://a.bc/p'')]"
    by (simp only: b3)

  let ?s3 = "str ''Contact: x@y.zz security@a.bc''"
  have c1: "std_capture ?s3 = None"
    by (simp add: std_eval)
  have c2: "delim_capture True ''-----BEGIN SECURITY.TXT-----'' ''-----END SECURITY.TXT-----'' ?s3 = None"
    by (simp add: delim_eval)
  have c3: "field_capture ''Contact: '' ?s3 = Some (str ''x@y.zz security@a.bc'')"
    by (simp add: field_eval)
  have c5: "trim (str ''x@y.zz security@a.bc'') = str ''x@y.zz security@a.bc''"
    by (simp add: trim_def is_ws_def is_line_terminator_def str_def)
  from cascade_order[where L = ?L and s = ?s3 and c = "str ''x@y.zz security@a.bc''" and m = "[]"
      and caps = "[]" and bs = "[]" and pre = "[]" and start = "[]"
      and h = "[]" and rs = "[]", THEN conjunct2, THEN conjunct2, THEN conjunct1] c1 c2 c3
  have "from_pattern1 ?L ?s3 = [(str ''contact'', trim (str ''x@y.zz security@a.bc''))]"
    by blast
  then have 5: "from_pattern1 ?L ?s3 = [(str ''contact'', str ''x@y.zz security@a.bc'')]"
    by (simp only: c5)

  let ?s4 = "str ''mailto:x@y.zz security@a.bc''"
  have d1: "std_capture ?s4 = None"
    by (simp add: std_eval)
  have d2: "delim_capture True ''-----BEGIN SECURITY.TXT-----'' ''-----END SECURITY.TXT-----'' ?s4 = None"
    by (simp add: delim_eval)
  have d3: "field_capture ''Contact: '' ?s4 = None"
    by (simp add: field_eval)
  have d4: "str_match True re_mailto_field ?s4 = Some (str ''mailto:x@y.zz'', [(1, str ''x@y.zz'')])"
    by (simp add: re_mailto_field_def re_email_def re_eval del: catom_mem.simps(1))
  have d5: "map_of [(1::nat, str ''x@y.zz'')] 1 = Some (str ''x@y.zz'')" by simp
  have d6: "trim (str ''x@y.zz'') = str ''x@y.zz''"
    by (simp add: trim_def is_ws_def is_line_terminator_def str_def)
  from cascade_order[where L = ?L and s = ?s4 and c = "str ''x@y.zz''" and m = "str ''mailto:x@y.zz''"
      and caps = "[(1, str ''x@y.zz'')]" and bs = "[]" and pre = "[]" and start = "[]"
      and h = "[]" and rs = "[]", THEN conjunct2, THEN conjunct2, THEN conjunct2, THEN conjunct1]
    d1 d2 d3 d4 d5
  have "from_pattern1 ?L ?s4 = [(str ''contact'', trim (str ''x@y.zz''))]"
    by blast
  then have 6: "from_pattern1 ?L ?s4 = [(str ''contact'', str ''x@y.zz'')]"
    by (simp only: d6)

  let ?s5 = "str ''see security@a.bc''"
  have e1: "std_capture ?s5 = None"
    by (simp add: std_eval)
  have e2: "delim_capture True ''-----BEGIN SECURITY.TXT-----'' ''-----END SECURITY.TXT-----'' ?s5 = None"
    by (simp add: delim_eval)
  have e3: "field_capture ''Contact: '' ?s5 = None"
    by (simp add: field_eval)
  have e4: "str_match True re_mailto_field ?s5 = None"
    by (simp add: re_mailto_field_def re_email_def re_eval del: catom_mem.simps(1))
  have e5: "first_match False
                    [re_security_email, re_mailto, re_url ''/security'',
                     re_url ''/responsible-disclosure'', re_url ''/vulnerability''] ?s5 =
      Some (str ''security@a.bc'')"
    by (simp add: fallback_eval re_eval del: catom_mem.simps(1))
  have e6: "delim_capture False ''-----BEGIN PGP PUBLIC KEY BLOCK-----''
              ''-----END PGP PUBLIC KEY BLOCK-----'' ?s5 = None"
    by (simp add: delim_eval)
  have e7: "extractSecurityInfoFromText ?s5 = [(str ''contact'', str ''security@a.bc'')]"
    unfolding extract_eq e5 e6 by simp
  from cascade_order[where L = ?L and s = ?s5 and c = "[]" and m = "[]" and caps = "[]" and bs = "[]"
      and pre = "[]" and start = "[]" and h = "[]" and rs = "[]",
      THEN conjunct2, THEN conjunct2, THEN conjunct2, THEN conjunct2, THEN conjunct1] e1 e2 e3 e4
  have "from_pattern1 ?L ?s5 = extractSecurityInfoFromText ?s5"
    by blast
  then have 7: "from_pattern1 ?L ?s5 = [(str ''contact'', str ''security@a.bc'')]"
    by (simp only: e7)
  from 1 2 3 4 5 6 7 show ?thesis by blast
qed

text \<open>
  C5, as stated, fails on two texts with a standard block and a line \<open>Contact:\<close> after it.
  In the first the block follows a header line with an empty block: the standard pattern
  matches the first header and captures nothing, and the result is the one of the line
  \<open>Contact:\<close>, not the fields of the block.  In the second the block has no field: the
  cascade stops at the standard pattern with the empty mapping, although the single-field
  pattern would yield a contact.
\<close>

theorem cascade_counterexample:
  "findAndParseSecurityTxt (\<lambda>s. s)
     (bytes_of ''#security.txt\<newline>\<newline># security.txt\<newline>expires: 2025-01-01\<newline>\<newline>Contact: a@b.cd'') =
     [(str ''contact'', str ''a@b.cd'')] \<and>
   findAndParseSecurityTxt (\<lambda>s. s)
     (bytes_of ''# security.txt\<newline>garbage\<newline>\<newline>Contact: a@b.cd'') = [] \<and>
   from_pattern3 (str ''# security.txt\<newline>garbage\<newline>\<newline>Contact: a@b.cd'') =
     [(str ''contact'', str ''a@b.cd'')]"
proof -
  let ?L = "\<lambda>s :: jstring. s"
  let ?s1 = "str ''#security.txt\<newline>\<newline># security.txt\<newline>expires: 2025-01-01\<newline>\<newline>Contact: a@b.cd''"
  let ?s2 = "str ''# security.txt\<newline>garbage\<newline>\<newline>Contact: a@b.cd''"
  have t: "trim (str ''a@b.cd'') = str ''a@b.cd''"
    by (simp add: trim_def is_ws_def is_line_terminator_def str_def)
  have a1: "std_capture ?s1 = None \<or> std_capture ?s1 = Some []"
    by (simp add: std_eval)
  have a2: "delim_capture True ''-----BEGIN SECURITY.TXT-----'' ''-----END SECURITY.TXT-----'' ?s1 = None \<or>
      delim_capture True ''-----BEGIN SECURITY.TXT-----'' ''-----END SECURITY.TXT-----'' ?s1 = Some []"
    by (simp add: delim_eval)
  have a3: "field_capture ''Contact: '' ?s1 = Some (str ''a@b.cd'')"
    by (simp add: field_eval)
  have "from_pattern1 ?L ?s1 = [(str ''contact'', str ''a@b.cd'')]"
    unfolding from_pattern1_stages(3)[OF a1 a2] from_pattern3_contact[OF a3] t by (rule refl)
  then have 1: "findAndParseSecurityTxt ?L
     (bytes_of ''#security.txt\<newline>\<newline># security.txt\<newline>expires: 2025-01-01\<newline>\<newline>Contact: a@b.cd'') =
     [(str ''contact'', str ''a@b.cd'')]"
    by (subst findAndParse_ascii) simp_all
  have b1: "std_capture ?s2 = Some (str ''garbage'')"
    by (simp add: std_eval)
  have b2: "parseSecurityTxt_caught ?L (str ''garbage'') = []"
    by (simp add: parse_eval)
  have "from_pattern1 ?L ?s2 = []"
    unfolding b2[symmetric] using b1 by (rule from_pattern1_stages(1)) (simp add: str_def)
  then have 2: "findAndParseSecurityTxt ?L
     (bytes_of ''# security.txt\<newline>garbage\<newline>\<newline>Contact: a@b.cd'') = []"
    by (subst findAndParse_ascii) simp_all
  have b3: "field_capture ''Contact: '' ?s2 = Some (str ''a@b.cd'')"
    by (simp add: field_eval)
  have 3: "from_pattern3 ?s2 = [(str ''contact'', str ''a@b.cd'')]"
    unfolding from_pattern3_contact[OF b3] t by (rule refl)
  from 1 2 3 show ?thesis by blast
qed

section \<open>Claims about the blocks\<close>

text \<open>
  C1, as the code has it.  The decoded text has a header line, at its start or after a
  newline, and no header line before it; the lines \<open>key: value\<close> of valid fields follow, up to a
  blank line, a line starting with \<open>#\<close> or the end of the text.  Then
  \<open>findAndParseSecurityTxt\<close> returns the mapping built from these fields in their order,
  each under its key in lower case with \<open>-letter\<close> folded to the upper-case letter; and
  when this mapping is not empty, the handler answers for an account holding these bytes
  with the status \<open>success\<close> and this mapping.
\<close>

theorem standard_block_fields:
  assumes "TextDecoder_decode bs = pre @ start @ h @ 0x0A # join_lines (map render flds) @ w"
    and "\<not> has_header (pre @ start)"
    and "(start = [] \<and> pre = []) \<or> start = [0x0A]"
    and "header_text h"
    and "flds \<noteq> []"
    and "\<forall>kv \<in> set flds. valid_key (fst kv) \<and> valid_value (snd kv)"
    and "block_end w \<or> w = [0x0A]"
  shows "findAndParseSecurityTxt L bs = foldl (entry_of L) [] flds \<and>
         (\<forall>connection s p acct.
            PublicKey_of_string s = Inr p \<and> connection p = Inr (Some acct) \<and>
            owner acct \<noteq> BPF_UPGRADEABLE_LOADER_ID \<and> data acct = bs \<and>
            foldl (entry_of L) [] flds \<noteq> [] \<longrightarrow>
            snd (handler L connection s) =
              \<lparr>status = ''success'', info = Some (foldl (entry_of L) [] flds),
               message = ''Successfully retrieved security.txt information''\<rparr>)"
proof -
  have r: "findAndParseSecurityTxt L bs = foldl (entry_of L) [] flds"
    using assms by (rule findAndParse_standard_block)
  show ?thesis
  proof (intro conjI allI impI)
    show "findAndParseSecurityTxt L bs = foldl (entry_of L) [] flds" by (rule r)
  next
    fix connection :: Connection and s p and acct :: AccountInfo
    assume a: "PublicKey_of_string s = Inr p \<and> connection p = Inr (Some acct) \<and>
            owner acct \<noteq> BPF_UPGRADEABLE_LOADER_ID \<and> data acct = bs \<and>
            foldl (entry_of L) [] flds \<noteq> []"
    then have "snd (handler L connection s) =
       (if findAndParseSecurityTxt L (data acct) = []
      then \<lparr>status = ''warning'', info = None,
            message = ''No security.txt information found for this program''\<rparr>
      else \<lparr>status = ''success'', info = Some (findAndParseSecurityTxt L (data acct)),
            message = ''Successfully retrieved security.txt information''\<rparr>)"
      by (intro handler_direct[of s p connection acct L]) simp_all
    with a r show "snd (handler L connection s) =
              \<lparr>status = ''success'', info = Some (foldl (entry_of L) [] flds),
               message = ''Successfully retrieved security.txt information''\<rparr>"
      by simp
  qed
qed

theorem standard_block_fields_witness:
  "findAndParseSecurityTxt (\<lambda>s. s)
     (bytes_of ''\<newline># security.txt\<newline>contact: mailto:sec@example.com\<newline>expires: 2025-01-01\<newline>\<newline>'') =
     [(str ''contact'', str ''mailto:sec@example.com''), (str ''expires'', str ''2025-01-01'')] \<and>
   snd (handler (\<lambda>s. s)
     (\<lambda>k. Inr (Some \<lparr>owner = 0, data = bytes_of ''\<newline># security.txt\<newline>contact: mailto:sec@example.com\<newline>expires: 2025-01-01\<newline>\<newline>''\<rparr>))
     ''11111111111111111111111111111111'') =
     \<lparr>status = ''success'',
      info = Some [(str ''contact'', str ''mailto:sec@example.com''), (str ''expires'', str ''2025-01-01'')],
      message = ''Successfully retrieved security.txt information''\<rparr>"
proof -
  let ?bs = "bytes_of ''\<newline># security.txt\<newline>contact: mailto:sec@example.com\<newline>expires: 2025-01-01\<newline>\<newline>''"
  let ?flds = "[(str ''contact'', str ''mailto:sec@example.com''), (str ''expires'', str ''2025-01-01'')]"
  have d: "TextDecoder_decode ?bs =
      [] @ [0x0A] @ str ''# security.txt'' @ 0x0A # join_lines (map render ?flds) @ [0x0A, 0x0A]"
    by (subst TextDecoder_decode_bytes_of) (simp_all add: str_def render_def)
  have h: "header_text (str ''# security.txt'')"
    by (simp add: header_text_def lit_eq_def lit_prefix.simps canon_def ascii_upper_def ch_def str_def)
  have v: "\<forall>kv \<in> set ?flds. valid_key (fst kv) \<and> valid_value (snd kv)"
    by (simp add: valid_key_def valid_value_def is_ws_def is_line_terminator_def str_def)
  have f: "foldl (entry_of (\<lambda>s. s)) [] ?flds = ?flds"
    by (simp add: entry_of_def obj_set_def toLowerCase_def ascii_lower_def str_def)
  note t = standard_block_fields[of ?bs "[]" "[0x0A]" "str ''# security.txt''" ?flds "[0x0A, 0x0A]" "\<lambda>s. s",
      OF d _ _ h _ v]
  have t': "findAndParseSecurityTxt (\<lambda>s. s) ?bs = foldl (entry_of (\<lambda>s. s)) [] ?flds \<and>
         (\<forall>connection s p acct.
            PublicKey_of_string s = Inr p \<and> connection p = Inr (Some acct) \<and>
            owner acct \<noteq> BPF_UPGRADEABLE_LOADER_ID \<and> data acct = ?bs \<and>
            foldl (entry_of (\<lambda>s. s)) [] ?flds \<noteq> [] \<longrightarrow>
            snd (handler (\<lambda>s. s) connection s) =
              \<lparr>status = ''success'', info = Some (foldl (entry_of (\<lambda>s. s)) [] ?flds),
               message = ''Successfully retrieved security.txt information''\<rparr>)"
    by (rule t) (simp_all add: no_header_nl)
  from t'[THEN conjunct1] have 1: "findAndParseSecurityTxt (\<lambda>s. s) ?bs = ?flds"
    unfolding f .
  from t'[THEN conjunct2, rule_format,
      of "''11111111111111111111111111111111''" 0 "\<lambda>k. Inr (Some \<lparr>owner = 0, data = ?bs\<rparr>)"
         "\<lparr>owner = 0, data = ?bs\<rparr>"]
  have 2: "snd (handler (\<lambda>s. s) (\<lambda>k. Inr (Some \<lparr>owner = 0, data = ?bs\<rparr>))
       ''11111111111111111111111111111111'') =
     \<lparr>status = ''success'', info = Some ?flds,
      message = ''Successfully retrieved security.txt information''\<rparr>"
    unfolding f using PublicKey_of_string_ones loader_nonzero by simp
  from 1 2 show ?thesis by (rule conjI)
qed

text \<open>
  C1, as stated, fails on two texts that contain a valid standard block.  In the first
  the block follows a header line with an empty block: the standard pattern matches the
  first header and captures nothing, and no later pattern finds the field \<open>expires\<close>, so
  the result is empty.  In the second the block has the key \<open>contact\<close> twice: the result
  has only the later value.
\<close>

theorem standard_block_counterexample:
  "findAndParseSecurityTxt (\<lambda>s. s)
     (bytes_of ''#security.txt\<newline>\<newline># security.txt\<newline>expires: 2025-01-01'') = [] \<and>
   findAndParseSecurityTxt (\<lambda>s. s)
     (bytes_of ''# security.txt\<newline>expires: 2025-01-01'') =
     [(str ''expires'', str ''2025-01-01'')] \<and>
   findAndParseSecurityTxt (\<lambda>s. s)
     (bytes_of ''# security.txt\<newline>contact: a@b.cd\<newline>contact: e@f.gh'') =
     [(str ''contact'', str ''e@f.gh'')]"
proof -
  let ?s1 = "str ''#security.txt\<newline>\<newline># security.txt\<newline>expires: 2025-01-01''"
  have a: "std_capture ?s1 = Some []"
    by (simp add: std_eval)
  have b: "truthy_group1 (str_match True re_delimited ?s1) = None"
    by (simp add: re_delimited_def re_eval truthy_group1_def)
  have c: "field_capture ''Contact: '' ?s1 = None"
    by (simp add: field_eval)
  have d: "str_match True re_mailto_field ?s1 = None"
    by (simp add: re_mailto_field_def re_email_def re_eval del: catom_mem.simps(1))
  have e: "extractSecurityInfoFromText ?s1 = []"
    by (simp add: extractSecurityInfoFromText_def match_all.simps re_security_email_def re_mailto_def
        re_url_def re_pgp_def re_email_def re_eval del: catom_mem.simps(1))
  have "from_pattern1 (\<lambda>s. s) ?s1 = []"
    unfolding from_pattern1_no_block[OF disjI2[OF a] b] from_pattern3_mailto[OF c] d e
    by simp
  then have 1: "findAndParseSecurityTxt (\<lambda>s. s)
     (bytes_of ''#security.txt\<newline>\<newline># security.txt\<newline>expires: 2025-01-01'') = []"
    by (subst findAndParse_ascii) simp_all
  have h: "header_text (str ''# security.txt'')"
    by (simp add: header_text_def lit_eq_def lit_prefix.simps canon_def ascii_upper_def ch_def str_def)
  have 2: "findAndParseSecurityTxt (\<lambda>s. s) (bytes_of ''# security.txt\<newline>expires: 2025-01-01'') =
     [(str ''expires'', str ''2025-01-01'')]"
  proof -
    let ?flds = "[(str ''expires'', str ''2025-01-01'')]"
    have "findAndParseSecurityTxt (\<lambda>s. s) (bytes_of ''# security.txt\<newline>expires: 2025-01-01'') =
        foldl (entry_of (\<lambda>s. s)) [] ?flds"
    proof (rule findAndParse_standard_block[where pre = "[]" and start = "[]"
          and h = "str ''# security.txt''" and w = "[]"])
      show "TextDecoder_decode (bytes_of ''# security.txt\<newline>expires: 2025-01-01'') =
          [] @ [] @ str ''# security.txt'' @ 0x0A # join_lines (map render ?flds) @ []"
        by (subst TextDecoder_decode_bytes_of) (simp_all add: str_def render_def)
      show "\<forall>kv \<in> set ?flds. valid_key (fst kv) \<and> valid_value (snd kv)"
        by (simp add: valid_key_def valid_value_def is_ws_def is_line_terminator_def str_def)
    qed (simp_all add: h no_header_Nil)
    then show ?thesis
      by (simp add: entry_of_def obj_set_def toLowerCase_def ascii_lower_def str_def)
  qed
  have 3: "findAndParseSecurityTxt (\<lambda>s. s)
     (bytes_of ''# security.txt\<newline>contact: a@b.cd\<newline>contact: e@f.gh'') =
     [(str ''contact'', str ''e@f.gh'')]"
  proof -
    let ?flds = "[(str ''contact'', str ''a@b.cd''), (str ''contact'', str ''e@f.gh'')]"
    have "findAndParseSecurityTxt (\<lambda>s. s)
        (bytes_of ''# security.txt\<newline>contact: a@b.cd\<newline>contact: e@f.gh'') =
        foldl (entry_of (\<lambda>s. s)) [] ?flds"
    proof (rule findAndParse_standard_block[where pre = "[]" and start = "[]"
          and h = "str ''# security.txt''" and w = "[]"])
      show "TextDecoder_decode (bytes_of ''# security.txt\<newline>contact: a@b.cd\<newline>contact: e@f.gh'') =
          [] @ [] @ str ''# security.txt'' @ 0x0A # join_lines (map render ?flds) @ []"
        by (subst TextDecoder_decode_bytes_of) (simp_all add: str_def render_def)
      show "\<forall>kv \<in> set ?flds. valid_key (fst kv) \<and> valid_value (snd kv)"
        by (simp add: valid_key_def valid_value_def is_ws_def is_line_terminator_def str_def)
    qed (simp_all add: h no_header_Nil)
    then show ?thesis
      by (simp add: entry_of_def obj_set_def toLowerCase_def ascii_lower_def str_def)
  qed
  from 1 2 3 show ?thesis by blast
qed

text \<open>
  C6, as the code has it.  Let the content \<open>c\<close> be not empty, with no blank line and no
  line starting with \<open>#\<close> after its first line, and without the end marker; and let the
  text made of the begin marker, \<open>c\<close> and the end marker have no header line.  Then the
  bytes of a header line followed by a newline and \<open>c\<close>, and the bytes of \<open>c\<close> between
  the two markers, give the same mapping: the one that the normalizer gives for \<open>c\<close>.
\<close>

theorem block_forms_agree:
  assumes "c \<noteq> []"
    and "block_len c = length c"
    and "first_pos (lit_prefix True ''-----END SECURITY.TXT-----'')
           (c @ str ''-----END SECURITY.TXT-----'') = Some (length c)"
    and "\<not> has_header (str ''-----BEGIN SECURITY.TXT-----'' @ c @ str ''-----END SECURITY.TXT-----'')"
    and "header_text h"
    and "TextDecoder_decode bs1 = h @ 0x0A # c"
    and "TextDecoder_decode bs2 = str ''-----BEGIN SECURITY.TXT-----'' @ c @ str ''-----END SECURITY.TXT-----''"
  shows "findAndParseSecurityTxt L bs1 = findAndParseSecurityTxt L bs2 \<and>
         findAndParseSecurityTxt L bs2 = parseSecurityTxt_caught L c"
proof -
  have 1: "findAndParseSecurityTxt L bs1 = parseSecurityTxt_caught L c"
    unfolding findAndParseSecurityTxt_def Let_def assms(6)
    using std_capture_exact[OF assms(5,2)] assms(1) by (rule from_pattern1_capture)
  have n: "std_capture (str ''-----BEGIN SECURITY.TXT-----'' @ c @ str ''-----END SECURITY.TXT-----'') = None"
    using assms(4) by (simp add: has_header_iff)
  have 2: "findAndParseSecurityTxt L bs2 = parseSecurityTxt_caught L c"
    unfolding findAndParseSecurityTxt_def Let_def assms(7)
    using n delim_capture_exact[OF assms(3)] assms(1) by (rule from_pattern1_delimited)
  from 1 2 show ?thesis by simp
qed

theorem block_forms_agree_witness:
  "findAndParseSecurityTxt (\<lambda>s. s)
     (bytes_of ''# security.txt\<newline>\<newline>contact: a@b.cd\<newline>preferred-languages: en\<newline>'') =
   findAndParseSecurityTxt (\<lambda>s. s)
     (bytes_of ''-----BEGIN SECURITY.TXT-----\<newline>contact: a@b.cd\<newline>preferred-languages: en\<newline>-----END SECURITY.TXT-----'') \<and>
   findAndParseSecurityTxt (\<lambda>s. s)
     (bytes_of ''-----BEGIN SECURITY.TXT-----\<newline>contact: a@b.cd\<newline>preferred-languages: en\<newline>-----END SECURITY.TXT-----'') =
     [(str ''contact'', str ''a@b.cd''), (str ''preferredLanguages'', str ''en'')]"
proof -
  let ?c = "str ''\<newline>contact: a@b.cd\<newline>preferred-languages: en\<newline>''"
  let ?b1 = "bytes_of ''# security.txt\<newline>\<newline>contact: a@b.cd\<newline>preferred-languages: en\<newline>''"
  let ?b2 = "bytes_of ''-----BEGIN SECURITY.TXT-----\<newline>contact: a@b.cd\<newline>preferred-languages: en\<newline>-----END SECURITY.TXT-----''"
  have 1: "?c \<noteq> []" by (simp add: str_def)
  have 2: "block_len ?c = length ?c" by (simp add: str_def)
  have 3: "first_pos (lit_prefix True ''-----END SECURITY.TXT-----'')
           (?c @ str ''-----END SECURITY.TXT-----'') = Some (length ?c)"
    by (simp add: lit_prefix.simps canon_def ascii_upper_def ch_def str_def)
  have 4: "\<not> has_header (str ''-----BEGIN SECURITY.TXT-----'' @ ?c @ str ''-----END SECURITY.TXT-----'')"
    by (simp add: has_header_iff std_eval)
  have 5: "header_text (str ''# security.txt'')"
    by (simp add: header_text_def lit_eq_def lit_prefix.simps canon_def ascii_upper_def ch_def str_def)
  have 6: "TextDecoder_decode ?b1 = str ''# security.txt'' @ 0x0A # ?c"
    by (subst TextDecoder_decode_bytes_of) (simp_all add: str_def)
  have 7: "TextDecoder_decode ?b2 =
      str ''-----BEGIN SECURITY.TXT-----'' @ ?c @ str ''-----END SECURITY.TXT-----''"
    by (subst TextDecoder_decode_bytes_of) (simp_all add: str_def)
  have 8: "parseSecurityTxt_caught (\<lambda>s. s) ?c =
      [(str ''contact'', str ''a@b.cd''), (str ''preferredLanguages'', str ''en'')]"
    by (simp add: parse_eval)
  from block_forms_agree[of ?c "str ''# security.txt''" ?b1 ?b2 "\<lambda>s. s", OF 1 2 3 4 5 6 7]
  show ?thesis unfolding 8 .
qed

text \<open>
  C6, as stated, fails on a content with a blank line: the standard pattern ends the
  block at the blank line and the field \<open>expires\<close> after it is lost, while the delimited
  pattern takes the content up to the end marker.
\<close>

theorem block_forms_counterexample:
  "findAndParseSecurityTxt (\<lambda>s. s)
     (bytes_of ''# security.txt\<newline>contact: a@b.cd\<newline>\<newline>expires: 2025-01-01'') =
     [(str ''contact'', str ''a@b.cd'')] \<and>
   findAndParseSecurityTxt (\<lambda>s. s)
     (bytes_of ''-----BEGIN SECURITY.TXT-----contact: a@b.cd\<newline>\<newline>expires: 2025-01-01-----END SECURITY.TXT-----'') =
     [(str ''contact'', str ''a@b.cd''), (str ''expires'', str ''2025-01-01'')]"
proof -
  let ?s1 = "str ''# security.txt\<newline>contact: a@b.cd\<newline>\<newline>expires: 2025-01-01''"
  let ?s2 = "str ''-----BEGIN SECURITY.TXT-----contact: a@b.cd\<newline>\<newline>expires: 2025-01-01-----END SECURITY.TXT-----''"
  have a: "std_capture ?s1 = Some (str ''contact: a@b.cd'')"
    by (simp add: std_eval)
  have "from_pattern1 (\<lambda>s. s) ?s1 = parseSecurityTxt_caught (\<lambda>s. s) (str ''contact: a@b.cd'')"
    using a by (rule from_pattern1_capture) (simp add: str_def)
  also have "\<dots> = [(str ''contact'', str ''a@b.cd'')]"
    by (simp add: parse_eval)
  finally have 1: "findAndParseSecurityTxt (\<lambda>s. s)
     (bytes_of ''# security.txt\<newline>contact: a@b.cd\<newline>\<newline>expires: 2025-01-01'') =
     [(str ''contact'', str ''a@b.cd'')]"
    by (subst findAndParse_ascii) simp_all
  have b: "std_capture ?s2 = None"
    by (simp add: std_eval)
  have c: "delim_capture True ''-----BEGIN SECURITY.TXT-----'' ''-----END SECURITY.TXT-----'' ?s2 =
      Some (str ''contact: a@b.cd\<newline>\<newline>expires: 2025-01-01'')"
    by (simp add: delim_eval)
  have "from_pattern1 (\<lambda>s. s) ?s2 =
      parseSecurityTxt_caught (\<lambda>s. s) (str ''contact: a@b.cd\<newline>\<newline>expires: 2025-01-01'')"
    using b c by (rule from_pattern1_delimited) (simp add: str_def)
  also have "\<dots> = [(str ''contact'', str ''a@b.cd''), (str ''expires'', str ''2025-01-01'')]"
    by (simp add: parse_eval)
  finally have 2: "findAndParseSecurityTxt (\<lambda>s. s)
     (bytes_of ''-----BEGIN SECURITY.TXT-----contact: a@b.cd\<newline>\<newline>expires: 2025-01-01-----END SECURITY.TXT-----'') =
     [(str ''contact'', str ''a@b.cd''), (str ''expires'', str ''2025-01-01'')]"
    by (subst findAndParse_ascii) simp_all
  from 1 2 show ?thesis by (rule conjI)
qed

section \<open>Claims about the single fields\<close>

text \<open>
  C7, as the code has it.  When neither block pattern yields a block, the function
  goes on with the single-field patterns.  The pattern \<open>Contact: \<close> is not tied to the start
  of a line: it finds the first place of the text where \<open>contact: \<close>, in any case and with
  the space, is followed by a code unit other than a newline, and the result is the
  mapping with the only key \<open>contact\<close>, set to the rest of that line, trimmed.  Whenever the
  pattern \<open>Security-Contact: \<close> matches, the pattern \<open>Contact: \<close> matches too, so the second
  pattern never decides.  When \<open>Contact: \<close> does not match and the \<open>mailto:\<close> pattern does,
  the result is the mapping with the only key \<open>contact\<close>, set to the address after
  \<open>mailto:\<close>; the fallback runs only when none of the patterns matches.
\<close>

theorem single_field_matcher:
  "(truthy_group1 (str_match True re_standard s) = None \<and>
    truthy_group1 (str_match True re_delimited s) = None \<longrightarrow>
      from_pattern1 L s = from_pattern3 s) \<and>
   (str_match True re_contact s = None) = (field_capture ''Contact: '' s = None) \<and>
   (field_capture ''Contact: '' s = Some c \<longrightarrow> from_pattern3 s = [(str ''contact'', trim c)]) \<and>
   (str_match True re_security_contact s \<noteq> None \<longrightarrow> str_match True re_contact s \<noteq> None) \<and>
   (str_match True re_contact s = None \<and> str_match True re_mailto_field s = Some (m, caps) \<and>
    map_of caps 1 = Some c \<longrightarrow>
      from_pattern3 s = [(str ''contact'', trim c)]) \<and>
   (str_match True re_contact s = None \<and> str_match True re_mailto_field s = None \<longrightarrow>
      from_pattern3 s = extractSecurityInfoFromText s)"
proof (intro conjI impI)
  assume "truthy_group1 (str_match True re_standard s) = None \<and>
    truthy_group1 (str_match True re_delimited s) = None"
  then show "from_pattern1 L s = from_pattern3 s"
    by (simp add: from_pattern1_def from_pattern2_def)
next
  show "(str_match True re_contact s = None) = (field_capture ''Contact: '' s = None)"
    by (rule str_match_contact_None)
next
  assume "field_capture ''Contact: '' s = Some c"
  then show "from_pattern3 s = [(str ''contact'', trim c)]" by (rule from_pattern3_contact)
next
  assume "str_match True re_security_contact s \<noteq> None"
  then show "str_match True re_contact s \<noteq> None"
    using security_contact_subsumed[of s]
    by (simp add: str_match_contact_None str_match_security_contact_None)
next
  assume "str_match True re_contact s = None \<and> str_match True re_mailto_field s = Some (m, caps) \<and>
    map_of caps 1 = Some c"
  then show "from_pattern3 s = [(str ''contact'', trim c)]"
    using from_pattern3_mailto[of s] by (simp add: str_match_contact_None)
next
  assume "str_match True re_contact s = None \<and> str_match True re_mailto_field s = None"
  then show "from_pattern3 s = extractSecurityInfoFromText s"
    using from_pattern3_mailto[of s] by (simp add: str_match_contact_None)
qed

theorem single_field_matcher_witness:
  "from_pattern1 (\<lambda>s. s) (str ''x CONTACT:  a@b.cd \<newline>Contact: e@f.gh'') =
     [(str ''contact'', str ''a@b.cd'')] \<and>
   str_match True re_contact (str ''Security-Contact: a@b.cd\<newline>Contact: e@f.gh'') \<noteq> None \<and>
   from_pattern3 (str ''see mailto:a@b.cd'') = [(str ''contact'', str ''a@b.cd'')] \<and>
   from_pattern3 (str ''Contact:a@b.cd'') = []"
proof -
  let ?s1 = "str ''x CONTACT:  a@b.cd \<newline>Contact: e@f.gh''"
  have a1: "truthy_group1 (str_match True re_standard ?s1) = None"
    by (simp add: truthy_standard std_eval)
  have a2: "truthy_group1 (str_match True re_delimited ?s1) = None"
    by (simp add: re_delimited_def re_eval truthy_group1_def)
  have a3: "field_capture ''Contact: '' ?s1 = Some (str '' a@b.cd '')"
    by (simp add: field_eval)
  have a4: "trim (str '' a@b.cd '') = str ''a@b.cd''"
    by (simp add: trim_def is_ws_def is_line_terminator_def str_def)
  note t1 = single_field_matcher[of ?s1 "\<lambda>s. s" "str '' a@b.cd ''" "[]" "[]"]
  from t1[THEN conjunct1] a1 a2 have "from_pattern1 (\<lambda>s. s) ?s1 = from_pattern3 ?s1" by blast
  moreover from t1[THEN conjunct2, THEN conjunct2, THEN conjunct1] a3
  have "from_pattern3 ?s1 = [(str ''contact'', trim (str '' a@b.cd ''))]" by blast
  ultimately have 1: "from_pattern1 (\<lambda>s. s) ?s1 = [(str ''contact'', str ''a@b.cd'')]"
    by (simp only: a4)
  let ?s2 = "str ''Security-Contact: a@b.cd\<newline>Contact: e@f.gh''"
  have b1: "str_match True re_security_contact ?s2 \<noteq> None"
    by (simp add: str_match_security_contact_None field_eval)
  from single_field_matcher[of ?s2 "\<lambda>s. s" "[]" "[]" "[]",
      THEN conjunct2, THEN conjunct2, THEN conjunct2, THEN conjunct1] b1
  have 2: "str_match True re_contact ?s2 \<noteq> None" by blast
  let ?s3 = "str ''see mailto:a@b.cd''"
  have c1: "str_match True re_contact ?s3 = None"
    by (simp add: str_match_contact_None field_eval)
  have c2: "str_match True re_mailto_field ?s3 = Some (str ''mailto:a@b.cd'', [(1, str ''a@b.cd'')])"
    by (simp add: re_mailto_field_def re_email_def re_eval del: catom_mem.simps(1))
  have c3: "map_of [(1::nat, str ''a@b.cd'')] 1 = Some (str ''a@b.cd'')" by simp
  have c4: "trim (str ''a@b.cd'') = str ''a@b.cd''"
    by (simp add: trim_def is_ws_def is_line_terminator_def str_def)
  from single_field_matcher[of ?s3 "\<lambda>s. s" "str ''a@b.cd''" "str ''mailto:a@b.cd''" "[(1, str ''a@b.cd'')]",
      THEN conjunct2, THEN conjunct2, THEN conjunct2, THEN conjunct2, THEN conjunct1] c1 c2 c3
  have "from_pattern3 ?s3 = [(str ''contact'', trim (str ''a@b.cd''))]" by blast
  then have 3: "from_pattern3 ?s3 = [(str ''contact'', str ''a@b.cd'')]" by (simp only: c4)
  let ?s4 = "str ''Contact:a@b.cd''"
  have d1: "str_match True re_contact ?s4 = None"
    by (simp add: str_match_contact_None field_eval)
  have d2: "str_match True re_mailto_field ?s4 = None"
    by (simp add: re_mailto_field_def re_email_def re_eval del: catom_mem.simps(1))
  have d3: "extractSecurityInfoFromText ?s4 = []"
    by (simp add: extractSecurityInfoFromText_def match_all.simps re_security_email_def re_mailto_def
        re_url_def re_pgp_def re_email_def re_eval del: catom_mem.simps(1))
  from single_field_matcher[of ?s4 "\<lambda>s. s" "[]" "[]" "[]",
      THEN conjunct2, THEN conjunct2, THEN conjunct2, THEN conjunct2, THEN conjunct2] d1 d2
  have "from_pattern3 ?s4 = extractSecurityInfoFromText ?s4" by blast
  then have 4: "from_pattern3 ?s4 = []" by (simp only: d3)
  from 1 2 3 4 show ?thesis by blast
qed

text \<open>
  C7, as stated, fails on two texts.  In the first a line \<open>Security-Contact:\<close> comes before
  a line \<open>Contact:\<close>: the value returned is the one of the line \<open>Security-Contact:\<close>, in which
  the pattern \<open>Contact: \<close> matches first.  In the second the line begins with \<open>Contact:\<close>
  and has no space after the colon: nothing is found.
\<close>

theorem contact_line_counterexample:
  "findAndParseSecurityTxt (\<lambda>s. s) (bytes_of ''Security-Contact: a@b.cd\<newline>Contact: e@f.gh'') =
     [(str ''contact'', str ''a@b.cd'')] \<and>
   findAndParseSecurityTxt (\<lambda>s. s) (bytes_of ''Contact:a@b.cd'') = []"
proof -
  let ?s2 = "str ''Security-Contact: a@b.cd\<newline>Contact: e@f.gh''"
  let ?s4 = "str ''Contact:a@b.cd''"
  have a: "std_capture ?s2 = None" "std_capture ?s4 = None"
    by (simp_all add: std_eval)
  have b: "truthy_group1 (str_match True re_delimited ?s2) = None"
    "truthy_group1 (str_match True re_delimited ?s4) = None"
    by (simp_all add: re_delimited_def re_eval truthy_group1_def)
  have c: "field_capture ''Contact: '' ?s2 = Some (str ''a@b.cd'')"
    by (simp add: field_eval)
  have t: "trim (str ''a@b.cd'') = str ''a@b.cd''"
    by (simp add: trim_def is_ws_def is_line_terminator_def str_def)
  have 1: "from_pattern1 (\<lambda>s. s) ?s2 = [(str ''contact'', str ''a@b.cd'')]"
    unfolding from_pattern1_no_block[OF disjI1[OF a(1)] b(1)] from_pattern3_contact[OF c] t
    by (rule refl)
  have d1: "field_capture ''Contact: '' ?s4 = None"
    by (simp add: field_eval)
  have d2: "str_match True re_mailto_field ?s4 = None"
    by (simp add: re_mailto_field_def re_email_def re_eval del: catom_mem.simps(1))
  have d3: "extractSecurityInfoFromText ?s4 = []"
    by (simp add: extractSecurityInfoFromText_def match_all.simps re_security_email_def re_mailto_def
        re_url_def re_pgp_def re_email_def re_eval del: catom_mem.simps(1))
  have 2: "from_pattern1 (\<lambda>s. s) ?s4 = []"
    unfolding from_pattern1_no_block[OF disjI1[OF a(2)] b(2)] from_pattern3_mailto[OF d1] d2 d3
    by simp
  have e: "findAndParseSecurityTxt (\<lambda>s. s) (bytes_of ''Security-Contact: a@b.cd\<newline>Contact: e@f.gh'') =
      from_pattern1 (\<lambda>s. s) ?s2"
    by (rule findAndParse_ascii) simp
  have f: "findAndParseSecurityTxt (\<lambda>s. s) (bytes_of ''Contact:a@b.cd'') = from_pattern1 (\<lambda>s. s) ?s4"
    by (rule findAndParse_ascii) simp
  from 1 2 e f show ?thesis by simp
qed

section \<open>Claims about texts without security information\<close>

text \<open>
  C8.  When, on the decoded bytes, neither block pattern yields a block, none of the
  single-field patterns matches and none of the patterns of the fallback matches,
  \<open>findAndParseSecurityTxt\<close> returns the empty mapping; \<open>getSecurityTxtInfo\<close> returns it
  for every program whose data these bytes are, and the handler answers with the status
  \<open>warning\<close>.  The normalizer returns a mapping for every content: no line makes it fail.
  The decoder and \<open>findAndParseSecurityTxt\<close> are total functions: ill-formed bytes are
  decoded to U+FFFD and an error raised while parsing yields the empty mapping.
\<close>

theorem nothing_found:
  assumes "truthy_group1 (str_match True re_standard (TextDecoder_decode bs)) = None"
    and "truthy_group1 (str_match True re_delimited (TextDecoder_decode bs)) = None"
    and "str_match True re_contact (TextDecoder_decode bs) = None"
    and "str_match True re_security_contact (TextDecoder_decode bs) = None"
    and "str_match True re_mailto_field (TextDecoder_decode bs) = None"
    and "match_all False re_security_email 0 (TextDecoder_decode bs) = []"
    and "match_all False re_mailto 0 (TextDecoder_decode bs) = []"
    and "match_all False (re_url ''/security'') 0 (TextDecoder_decode bs) = []"
    and "match_all False (re_url ''/responsible-disclosure'') 0 (TextDecoder_decode bs) = []"
    and "match_all False (re_url ''/vulnerability'') 0 (TextDecoder_decode bs) = []"
    and "match_all False re_pgp 0 (TextDecoder_decode bs) = []"
  shows "findAndParseSecurityTxt L bs = [] \<and>
         (\<forall>connection pid p fetched.
            PublicKey_of_string pid = Inr p \<and> programData_of connection p = (fetched, Inr bs) \<longrightarrow>
              getSecurityTxtInfo L connection p = (fetched, Inr []) \<and>
              handler L connection pid =
                (fetched, \<lparr>status = ''warning'', info = None,
                            message = ''No security.txt information found for this program''\<rparr>)) \<and>
         (\<forall>content. parseSecurityTxt L content \<noteq> None)"
proof -
  have r: "findAndParseSecurityTxt L bs = []"
    using assms(1-5) extract_nothing[OF assms(6-11)]
    by (simp add: findAndParseSecurityTxt_def from_pattern1_def from_pattern2_def from_pattern3_def)
  show ?thesis
  proof (intro conjI allI impI)
    show "findAndParseSecurityTxt L bs = []" by (rule r)
  next
    fix connection :: Connection and pid p fetched
    assume "PublicKey_of_string pid = Inr p \<and> programData_of connection p = (fetched, Inr bs)"
    then show "getSecurityTxtInfo L connection p = (fetched, Inr [])"
      by (simp add: getSecurityTxtInfo_def r)
  next
    fix connection :: Connection and pid p fetched
    assume "PublicKey_of_string pid = Inr p \<and> programData_of connection p = (fetched, Inr bs)"
    then show "handler L connection pid =
                (fetched, \<lparr>status = ''warning'', info = None,
                            message = ''No security.txt information found for this program''\<rparr>)"
      using handler_programData[of pid p connection fetched bs L] by (simp add: r)
  next
    fix content
    show "parseSecurityTxt L content \<noteq> None" by (simp add: parseSecurityTxt_eq)
  qed
qed

theorem nothing_found_witness:
  "findAndParseSecurityTxt (\<lambda>s. s) [0x7F, 0x45, 0x4C, 0x46, 0xFF, 0xC3, 0x28, 0x00] = [] \<and>
   handler (\<lambda>s. s)
     (\<lambda>k. Inr (Some \<lparr>owner = 0, data = [0x7F, 0x45, 0x4C, 0x46, 0xFF, 0xC3, 0x28, 0x00]\<rparr>))
     ''11111111111111111111111111111111'' =
     ([0], \<lparr>status = ''warning'', info = None,
            message = ''No security.txt information found for this program''\<rparr>) \<and>
   parseSecurityTxt (\<lambda>s. s) (str ''no field here'') \<noteq> None"
proof -
  let ?bs = "[0x7F, 0x45, 0x4C, 0x46, 0xFF, 0xC3, 0x28, 0x00] :: byte list"
  let ?c = "\<lambda>k :: PublicKey. (Inr (Some \<lparr>owner = 0, data = ?bs\<rparr>) :: error + AccountInfo option)"
  have d: "TextDecoder_decode ?bs = [0x7F, 0x45, 0x4C, 0x46, 0xFFFD, 0xFFFD, 0x28, 0x00]"
    by (simp add: TextDecoder_decode_def utf16_units_def Let_def)
  have 1: "truthy_group1 (str_match True re_standard (TextDecoder_decode ?bs)) = None"
    unfolding d by (simp add: truthy_standard std_eval)
  have 2: "truthy_group1 (str_match True re_delimited (TextDecoder_decode ?bs)) = None"
    unfolding d by (simp add: re_delimited_def re_eval truthy_group1_def)
  have 3: "str_match True re_contact (TextDecoder_decode ?bs) = None"
    unfolding d by (simp add: str_match_contact_None field_eval)
  have 4: "str_match True re_security_contact (TextDecoder_decode ?bs) = None"
    unfolding d by (simp add: str_match_security_contact_None field_eval)
  have 5: "str_match True re_mailto_field (TextDecoder_decode ?bs) = None"
    unfolding d by (simp add: re_mailto_field_def re_email_def re_eval del: catom_mem.simps(1))
  have 6: "match_all False re_security_email 0 (TextDecoder_decode ?bs) = []"
    unfolding d by (simp add: match_all.simps re_security_email_def re_eval del: catom_mem.simps(1))
  have 7: "match_all False re_mailto 0 (TextDecoder_decode ?bs) = []"
    unfolding d by (simp add: match_all.simps re_mailto_def re_email_def re_eval del: catom_mem.simps(1))
  have 8: "match_all False (re_url ''/security'') 0 (TextDecoder_decode ?bs) = []"
    "match_all False (re_url ''/responsible-disclosure'') 0 (TextDecoder_decode ?bs) = []"
    "match_all False (re_url ''/vulnerability'') 0 (TextDecoder_decode ?bs) = []"
    unfolding d by (simp_all add: match_all.simps re_url_def re_eval del: catom_mem.simps(1))
  have 9: "match_all False re_pgp 0 (TextDecoder_decode ?bs) = []"
    unfolding d by (simp add: match_all.simps re_pgp_def re_eval del: catom_mem.simps(1))
  note t = nothing_found[of ?bs "\<lambda>s. s", OF 1 2 3 4 5 6 7 8 9]
  have p: "PublicKey_of_string ''11111111111111111111111111111111'' = Inr 0 \<and>
      programData_of ?c 0 = ([0], Inr ?bs)"
    using PublicKey_of_string_ones loader_nonzero by (simp add: programData_of_def)
  from t[THEN conjunct1] have a: "findAndParseSecurityTxt (\<lambda>s. s) ?bs = []" .
  from t[THEN conjunct2, THEN conjunct1, rule_format, OF p]
  have b: "handler (\<lambda>s. s) ?c ''11111111111111111111111111111111'' =
     ([0], \<lparr>status = ''warning'', info = None,
            message = ''No security.txt information found for this program''\<rparr>)"
    by blast
  from t[THEN conjunct2, THEN conjunct2]
  have c: "parseSecurityTxt (\<lambda>s. s) (str ''no field here'') \<noteq> None" by blast
  from a b c show ?thesis by blast
qed

section \<open>Claims about the fallback\<close>

text \<open>
  C9, as the code has it.  The fallback tries five patterns in a fixed order: the
  addresses \<open>security@domain\<close>, the \<open>mailto:\<close> addresses, and the URLs with the paths
  \<open>/security\<close>, \<open>/responsible-disclosure\<close> and \<open>/vulnerability\<close>, each path being a pattern
  of its own.  \<open>contact\<close> is the first match in the text of the first of these patterns
  that matches at all, wherever the matches of the later patterns are.  Whether or not
  a contact is found, \<open>encryption\<close> is set to the fixed string
  "PGP key found in program data" exactly when the PGP pattern matches, and it matches
  every text in which the begin marker is followed, anywhere later, by the end marker.
\<close>

theorem fallback_priority:
  "extractSecurityInfoFromText s =
     (let result =
            (case first_match False
                    [re_security_email, re_mailto, re_url ''/security'',
                     re_url ''/responsible-disclosure'', re_url ''/vulnerability''] s of
               None \<Rightarrow> []
             | Some m \<Rightarrow> [(str ''contact'', m)])
      in if str_match False re_pgp s \<noteq> None
         then result @ [(str ''encryption'', str ''PGP key found in program data'')]
         else result) \<and>
   (s = u @ str ''-----BEGIN PGP PUBLIC KEY BLOCK-----'' @ v @
          str ''-----END PGP PUBLIC KEY BLOCK-----'' @ w \<longrightarrow>
      str_match False re_pgp s \<noteq> None)"
proof -
  have p: "(str_match False re_pgp s \<noteq> None) =
      (delim_capture False ''-----BEGIN PGP PUBLIC KEY BLOCK-----''
         ''-----END PGP PUBLIC KEY BLOCK-----'' s \<noteq> None)"
    unfolding re_pgp_def str_match_delim_None by (rule refl)
  show ?thesis
  proof (intro conjI impI)
    show "extractSecurityInfoFromText s =
     (let result =
            (case first_match False
                    [re_security_email, re_mailto, re_url ''/security'',
                     re_url ''/responsible-disclosure'', re_url ''/vulnerability''] s of
               None \<Rightarrow> []
             | Some m \<Rightarrow> [(str ''contact'', m)])
      in if str_match False re_pgp s \<noteq> None
         then result @ [(str ''encryption'', str ''PGP key found in program data'')]
         else result)"
      unfolding p by (rule extract_eq)
  next
    assume e: "s = u @ str ''-----BEGIN PGP PUBLIC KEY BLOCK-----'' @ v @
          str ''-----END PGP PUBLIC KEY BLOCK-----'' @ w"
    show "str_match False re_pgp s \<noteq> None" unfolding e by (rule pgp_present)
  qed
qed

theorem fallback_priority_witness:
  "extractSecurityInfoFromText (str ''mailto:x@y.zz security@a.bc'') =
     [(str ''contact'', str ''security@a.bc'')] \<and>
   extractSecurityInfoFromText
     (str ''https://a.bc/security -----BEGIN PGP PUBLIC KEY BLOCK-----xyz-----END PGP PUBLIC KEY BLOCK-----'') =
     [(str ''contact'', str ''https://a.bc/security''),
      (str ''encryption'', str ''PGP key found in program data'')]"
proof -
  let ?s1 = "str ''mailto:x@y.zz security@a.bc''"
  let ?s2 = "str ''https://a.bc/security -----BEGIN PGP PUBLIC KEY BLOCK-----xyz-----END PGP PUBLIC KEY BLOCK-----''"
  have a1: "first_match False
                    [re_security_email, re_mailto, re_url ''/security'',
                     re_url ''/responsible-disclosure'', re_url ''/vulnerability''] ?s1 =
      Some (str ''security@a.bc'')"
    by (simp add: fallback_eval re_eval del: catom_mem.simps(1))
  have a2: "str_match False re_pgp ?s1 = None"
    by (simp add: fallback_eval re_eval del: catom_mem.simps(1))
  from fallback_priority[of ?s1 "[]" "[]" "[]", THEN conjunct1]
  have 1: "extractSecurityInfoFromText ?s1 = [(str ''contact'', str ''security@a.bc'')]"
    unfolding a1 a2 by simp
  have b1: "first_match False
                    [re_security_email, re_mailto, re_url ''/security'',
                     re_url ''/responsible-disclosure'', re_url ''/vulnerability''] ?s2 =
      Some (str ''https://a.bc/security'')"
    by (simp add: fallback_eval re_eval del: catom_mem.simps(1))
  have b0: "?s2 = str ''https://a.bc/security '' @ str ''-----BEGIN PGP PUBLIC KEY BLOCK-----'' @
      str ''xyz'' @ str ''-----END PGP PUBLIC KEY BLOCK-----'' @ []"
    by (simp add: str_def)
  note t = fallback_priority[of ?s2 "str ''https://a.bc/security ''" "str ''xyz''" "[]"]
  from t[THEN conjunct2] b0 have b2: "str_match False re_pgp ?s2 \<noteq> None" by blast
  from t[THEN conjunct1]
  have 2: "extractSecurityInfoFromText ?s2 =
     [(str ''contact'', str ''https://a.bc/security''),
      (str ''encryption'', str ''PGP key found in program data'')]"
    unfolding b1 using b2 by simp
  from 1 2 show ?thesis by (rule conjI)
qed

text \<open>
  C9, as stated, fails inside the third category: in the text below the first URL of
  the category is the one with the path \<open>/vulnerability\<close>, and the contact returned is the
  later URL with the path \<open>/security\<close>, whose pattern is tried first.
\<close>

theorem url_category_counterexample:
  "extractSecurityInfoFromText (str ''https://a.bc/vulnerability https://d.ef/security'') =
     [(str ''contact'', str ''https://d.ef/security'')] \<and>
   findAndParseSecurityTxt (\<lambda>s. s) (bytes_of ''https://a.bc/vulnerability https://d.ef/security'') =
     [(str ''contact'', str ''https://d.ef/security'')]"
proof -
  let ?s = "str ''https://a.bc/vulnerability https://d.ef/security''"
  have a1: "first_match False
                    [re_security_email, re_mailto, re_url ''/security'',
                     re_url ''/responsible-disclosure'', re_url ''/vulnerability''] ?s =
      Some (str ''https://d.ef/security'')"
    by (simp add: fallback_eval re_eval del: catom_mem.simps(1))
  have a2: "delim_capture False ''-----BEGIN PGP PUBLIC KEY BLOCK-----''
              ''-----END PGP PUBLIC KEY BLOCK-----'' ?s = None"
    by (simp add: delim_eval)
  have 1: "extractSecurityInfoFromText ?s = [(str ''contact'', str ''https://d.ef/security'')]"
    unfolding extract_eq a1 a2 by simp
  have b: "std_capture ?s = None" by (simp add: std_eval)
  have c: "truthy_group1 (str_match True re_delimited ?s) = None"
    by (simp add: truthy_delimited delim_eval)
  have d: "field_capture ''Contact: '' ?s = None" by (simp add: field_eval)
  have e: "str_match True re_mailto_field ?s = None"
    by (simp add: re_mailto_field_def re_email_def re_eval del: catom_mem.simps(1))
  have "from_pattern1 (\<lambda>s. s) ?s = extractSecurityInfoFromText ?s"
    unfolding from_pattern1_no_block[OF disjI1[OF b] c] from_pattern3_mailto[OF d] e by simp
  then have 2: "findAndParseSecurityTxt (\<lambda>s. s)
      (bytes_of ''https://a.bc/vulnerability https://d.ef/security'') =
     [(str ''contact'', str ''https://d.ef/security'')]"
    unfolding 1 by (subst findAndParse_ascii) simp_all
  from 1 2 show ?thesis by (rule conjI)
qed

end
